theory Spec2Isabelle
  imports Main
begin

section \<open>Permutation (src/inference/Permutation.cpp)\<close>

text \<open>
  \<^verbatim>\<open>Index\<close> is an unsigned machine index (\<^verbatim>\<open>size_t\<close>). It is modelled by \<open>nat\<close>: every
  index the functions below compute stays below the size of a vector, except the
  subtraction at the start of \<^verbatim>\<open>PushToBack\<close>, whose wrap-around is written out there.
  A \<^verbatim>\<open>Permutation\<close> is its member \<^verbatim>\<open>rangeIndices_\<close>, a vector of indices.
  The functions are those of a build that compiles assertions in (\<^verbatim>\<open>NDEBUG\<close> is not
  defined): an \<^verbatim>\<open>assert\<close> that fails aborts the call, and the abort is the value
  \<open>Inl ContractViolation\<close>. An access that C++ leaves undefined is the value
  \<open>Inl UndefinedBehaviour\<close>. The build without assertions is modelled for \<^verbatim>\<open>PullToFront\<close>
  in a subsection of its own.
\<close>

datatype error = ContractViolation | UndefinedBehaviour

type_synonym Index = nat
type_synonym Permutation = "Index list"

text \<open>
  Modelled from the spec: the header Permutation.h is not among the sources. Its
  constructor \<^verbatim>\<open>Permutation(nVars)\<close> builds \<^verbatim>\<open>rangeIndices_\<close> with \<^verbatim>\<open>nVars\<close> value-initialised
  (zero) entries.
\<close>

definition Permutation_new :: "nat \<Rightarrow> Permutation" where
  "Permutation_new nVars = replicate nVars 0"

text \<open>
  Modelled from the spec: the reading \<^verbatim>\<open>operator[]\<close> of Permutation.h is missing. An
  index out of range is a contract violation.
\<close>

definition at :: "Permutation \<Rightarrow> Index \<Rightarrow> error + Index" where
  "at p i = (if i < length p then Inr (p ! i) else Inl ContractViolation)"

text \<open>
  Modelled from the spec: the writing \<^verbatim>\<open>operator[]\<close> of Permutation.h is missing. An
  index out of range is a contract violation.
\<close>

definition put :: "Permutation \<Rightarrow> Index \<Rightarrow> Index \<Rightarrow> error + Permutation" where
  "put p i v = (if i < length p then Inr (p[i := v]) else Inl ContractViolation)"

subsection \<open>Identity\<close>

function Identity_loop :: "nat \<Rightarrow> Index \<Rightarrow> Permutation \<Rightarrow> error + Permutation" where
  "Identity_loop nVars i ret =
     (if i < nVars then
        (case put ret i i of
           Inl e \<Rightarrow> Inl e
         | Inr ret' \<Rightarrow> Identity_loop nVars (Suc i) ret')
      else Inr ret)"
  by pat_completeness auto
termination
  by (relation "measure (\<lambda>(nVars, i, ret). nVars - i)") auto

declare Identity_loop.simps [simp del]

definition Identity :: "nat \<Rightarrow> error + Permutation" where
  "Identity nVars = Identity_loop nVars 0 (Permutation_new nVars)"

subsection \<open>PullToFront\<close>

text \<open>
  The mask \<^verbatim>\<open>pulled\<close> is a \<^verbatim>\<open>vector<bool>\<close>, whose \<^verbatim>\<open>operator[]\<close> checks nothing: the store
  \<^verbatim>\<open>pulled[toFront[j]] = true\<close> at an index past its end is undefined behaviour.
\<close>

definition mark_flag :: "bool list \<Rightarrow> Index \<Rightarrow> error + bool list" where
  "mark_flag flags v =
     (if v < length flags then Inr (flags[v := True]) else Inl UndefinedBehaviour)"

function PullToFront_mark ::
  "Index list \<Rightarrow> Index \<Rightarrow> Permutation \<Rightarrow> bool list \<Rightarrow> error + (Permutation \<times> bool list)" where
  "PullToFront_mark toFront j ret pulled =
     (if j < length toFront then
        (case put ret j (toFront ! j) of
           Inl e \<Rightarrow> Inl e
         | Inr ret' \<Rightarrow>
             (case mark_flag pulled (toFront ! j) of
                Inl e \<Rightarrow> Inl e
              | Inr pulled' \<Rightarrow> PullToFront_mark toFront (Suc j) ret' pulled'))
      else Inr (ret, pulled))"
  by pat_completeness auto
termination
  by (relation "measure (\<lambda>(toFront, j, ret, pulled). length toFront - j)") auto

declare PullToFront_mark.simps [simp del]

text \<open>
  The filling loop is the same in \<^verbatim>\<open>PullToFront\<close> and \<^verbatim>\<open>PushToBack\<close>:
  \<^verbatim>\<open>for(Index j=0; j<size; ++j) if(!pulled[j]) ret[nextVar++] = j;\<close>
\<close>

function fill_rest ::
  "nat \<Rightarrow> Index \<Rightarrow> Index \<Rightarrow> Permutation \<Rightarrow> bool list \<Rightarrow> error + (Permutation \<times> Index)" where
  "fill_rest sz j nextVar ret flags =
     (if j < sz then
        (if \<not> flags ! j then
           (case put ret nextVar j of
              Inl e \<Rightarrow> Inl e
            | Inr ret' \<Rightarrow> fill_rest sz (Suc j) (Suc nextVar) ret' flags)
         else fill_rest sz (Suc j) nextVar ret flags)
      else Inr (ret, nextVar))"
  by pat_completeness auto
termination
  by (relation "measure (\<lambda>(sz, j, nextVar, ret, flags). sz - j)") auto

declare fill_rest.simps [simp del]

definition PullToFront :: "Index list \<Rightarrow> nat \<Rightarrow> error + Permutation" where
  "PullToFront toFront sz =
     (case PullToFront_mark toFront 0 (Permutation_new sz) (replicate sz False) of
        Inl e \<Rightarrow> Inl e
      | Inr (ret, pulled) \<Rightarrow>
          (case fill_rest sz 0 (length toFront) ret pulled of
             Inl e \<Rightarrow> Inl e
           | Inr (ret', nextVar) \<Rightarrow>
               if nextVar = sz then Inr ret' else Inl ContractViolation))"

subsection \<open>PullToFront in a build without assertions\<close>

text \<open>
  Modelled from the spec: with \<^verbatim>\<open>NDEBUG\<close> defined every \<^verbatim>\<open>assert\<close> is compiled out. The
  contract checks of this code are assertions (section 9 of the specification), the
  index check of \<^verbatim>\<open>operator[]\<close> in the missing header Permutation.h among them: without
  it a store past the end of \<^verbatim>\<open>rangeIndices_\<close> is undefined behaviour.
\<close>

definition put_NDEBUG :: "Permutation \<Rightarrow> Index \<Rightarrow> Index \<Rightarrow> error + Permutation" where
  "put_NDEBUG p i v = (if i < length p then Inr (p[i := v]) else Inl UndefinedBehaviour)"

function PullToFront_mark_NDEBUG ::
  "Index list \<Rightarrow> Index \<Rightarrow> Permutation \<Rightarrow> bool list \<Rightarrow> error + (Permutation \<times> bool list)" where
  "PullToFront_mark_NDEBUG toFront j ret pulled =
     (if j < length toFront then
        (case put_NDEBUG ret j (toFront ! j) of
           Inl e \<Rightarrow> Inl e
         | Inr ret' \<Rightarrow>
             (case mark_flag pulled (toFront ! j) of
                Inl e \<Rightarrow> Inl e
              | Inr pulled' \<Rightarrow> PullToFront_mark_NDEBUG toFront (Suc j) ret' pulled'))
      else Inr (ret, pulled))"
  by pat_completeness auto
termination
  by (relation "measure (\<lambda>(toFront, j, ret, pulled). length toFront - j)") auto

declare PullToFront_mark_NDEBUG.simps [simp del]

function fill_rest_NDEBUG ::
  "nat \<Rightarrow> Index \<Rightarrow> Index \<Rightarrow> Permutation \<Rightarrow> bool list \<Rightarrow> error + (Permutation \<times> Index)" where
  "fill_rest_NDEBUG sz j nextVar ret flags =
     (if j < sz then
        (if \<not> flags ! j then
           (case put_NDEBUG ret nextVar j of
              Inl e \<Rightarrow> Inl e
            | Inr ret' \<Rightarrow> fill_rest_NDEBUG sz (Suc j) (Suc nextVar) ret' flags)
         else fill_rest_NDEBUG sz (Suc j) nextVar ret flags)
      else Inr (ret, nextVar))"
  by pat_completeness auto
termination
  by (relation "measure (\<lambda>(sz, j, nextVar, ret, flags). sz - j)") auto

declare fill_rest_NDEBUG.simps [simp del]

text \<open>The final \<^verbatim>\<open>assert(nextVar == size)\<close> is compiled out.\<close>

definition PullToFront_NDEBUG :: "Index list \<Rightarrow> nat \<Rightarrow> error + Permutation" where
  "PullToFront_NDEBUG toFront sz =
     (case PullToFront_mark_NDEBUG toFront 0 (Permutation_new sz) (replicate sz False) of
        Inl e \<Rightarrow> Inl e
      | Inr (ret, pulled) \<Rightarrow>
          (case fill_rest_NDEBUG sz 0 (length toFront) ret pulled of
             Inl e \<Rightarrow> Inl e
           | Inr (ret', nextVar) \<Rightarrow> Inr ret'))"

subsection \<open>PushToBack\<close>

function PushToBack_mark ::
  "Index list \<Rightarrow> Index \<Rightarrow> Index \<Rightarrow> Permutation \<Rightarrow> bool list
     \<Rightarrow> error + (Permutation \<times> bool list \<times> Index)" where
  "PushToBack_mark toBack j nextVar ret pushed =
     (if j < length toBack then
        (case put ret nextVar (toBack ! j) of
           Inl e \<Rightarrow> Inl e
         | Inr ret' \<Rightarrow>
             (case mark_flag pushed (toBack ! j) of
                Inl e \<Rightarrow> Inl e
              | Inr pushed' \<Rightarrow> PushToBack_mark toBack (Suc j) (Suc nextVar) ret' pushed'))
      else Inr (ret, pushed, nextVar))"
  by pat_completeness auto
termination
  by (relation "measure (\<lambda>(toBack, j, nextVar, ret, pushed). length toBack - j)") auto

declare PushToBack_mark.simps [simp del]

text \<open>
  \<^verbatim>\<open>size - toBack.size()\<close> is an unsigned subtraction: when \<^verbatim>\<open>toBack\<close> is longer than
  \<^verbatim>\<open>size\<close> it wraps around modulo \<open>2 ^ 64\<close>.
\<close>

definition usub :: "nat \<Rightarrow> nat \<Rightarrow> nat" where
  "usub a b = (if b \<le> a then a - b else a + 2 ^ 64 - b)"

definition PushToBack :: "Index list \<Rightarrow> nat \<Rightarrow> error + Permutation" where
  "PushToBack toBack sz =
     (let nextVar = usub sz (length toBack)
      in case PushToBack_mark toBack 0 nextVar (Permutation_new sz) (replicate sz False) of
           Inl e \<Rightarrow> Inl e
         | Inr (ret, pushed, nextVar') \<Rightarrow>
             if nextVar' \<noteq> sz then Inl ContractViolation
             else
               (case fill_rest sz 0 0 ret pushed of
                  Inl e \<Rightarrow> Inl e
                | Inr (ret', nextVar'') \<Rightarrow>
                    if nextVar'' = usub sz (length toBack) then Inr ret'
                    else Inl ContractViolation))"

subsection \<open>permute, partialPermutation, inverse\<close>

function permute_loop ::
  "Permutation \<Rightarrow> Permutation \<Rightarrow> Index \<Rightarrow> Permutation \<Rightarrow> error + Permutation" where
  "permute_loop this permutation j result =
     (if j < length permutation then
        (case at permutation j of
           Inl e \<Rightarrow> Inl e
         | Inr pj \<Rightarrow>
             if \<not> pj < length this then Inl ContractViolation
             else
               (case at this pj of
                  Inl e \<Rightarrow> Inl e
                | Inr v \<Rightarrow>
                    (case put result j v of
                       Inl e \<Rightarrow> Inl e
                     | Inr result' \<Rightarrow> permute_loop this permutation (Suc j) result')))
      else Inr result)"
  by pat_completeness auto
termination
  by (relation "measure (\<lambda>(this, permutation, j, result). length permutation - j)") auto

declare permute_loop.simps [simp del]

definition permute :: "Permutation \<Rightarrow> Permutation \<Rightarrow> error + Permutation" where
  "permute this permutation =
     permute_loop this permutation 0 (Permutation_new (length permutation))"

function partialPermutation_loop ::
  "Permutation \<Rightarrow> Permutation \<Rightarrow> Permutation \<Rightarrow> Index \<Rightarrow> Permutation \<Rightarrow> error + Permutation" where
  "partialPermutation_loop this selector partialPerm subsetPos result =
     (if subsetPos < length selector then
        (case at partialPerm subsetPos of
           Inl e \<Rightarrow> Inl e
         | Inr s \<Rightarrow>
             (case at selector s of
                Inl e \<Rightarrow> Inl e
              | Inr src \<Rightarrow>
                  (case at this src of
                     Inl e \<Rightarrow> Inl e
                   | Inr v \<Rightarrow>
                       (case at selector subsetPos of
                          Inl e \<Rightarrow> Inl e
                        | Inr dst \<Rightarrow>
                            (case put result dst v of
                               Inl e \<Rightarrow> Inl e
                             | Inr result' \<Rightarrow>
                                 partialPermutation_loop this selector partialPerm
                                   (Suc subsetPos) result')))))
      else Inr result)"
  by pat_completeness auto
termination
  by (relation "measure (\<lambda>(this, selector, partialPerm, subsetPos, result).
        length selector - subsetPos)") auto

declare partialPermutation_loop.simps [simp del]

definition partialPermutation ::
  "Permutation \<Rightarrow> Permutation \<Rightarrow> Permutation \<Rightarrow> error + Permutation" where
  "partialPermutation this selector partialPerm =
     (if length selector \<noteq> length partialPerm then Inl ContractViolation
      else partialPermutation_loop this selector partialPerm 0 this)"

function inverse_loop :: "Permutation \<Rightarrow> Index \<Rightarrow> Permutation \<Rightarrow> error + Permutation" where
  "inverse_loop this i result =
     (if i < length this then
        (case at this i of
           Inl e \<Rightarrow> Inl e
         | Inr v \<Rightarrow>
             if \<not> v < length this then Inl ContractViolation
             else
               (case put result v i of
                  Inl e \<Rightarrow> Inl e
                | Inr result' \<Rightarrow> inverse_loop this (Suc i) result'))
      else Inr result)"
  by pat_completeness auto
termination
  by (relation "measure (\<lambda>(this, i, result). length this - i)") auto

declare inverse_loop.simps [simp del]

definition inverse_perm :: "Permutation \<Rightarrow> error + Permutation" where
  "inverse_perm this = inverse_loop this 0 (Permutation_new (length this))"

subsection \<open>Auxiliary: the mask after marking a list of variables\<close>

definition marks :: "nat list \<Rightarrow> bool list \<Rightarrow> bool list" where
  "marks vs m = fold (\<lambda>v m. m[v := True]) vs m"

section \<open>VariableSlots (src/inference/VariableSlots.cpp)\<close>

text \<open>
  Modelled from the spec: the header VariableSlots.h is not among the sources. A
  \<^verbatim>\<open>VariableSlots\<close> is an ordered map from a variable id to a vector with one slot per
  factor; it is modelled by the list of its entries in iteration order (ascending key).
\<close>

type_synonym VariableSlots = "(Index \<times> Index list) list"

text \<open>
  Modelled from the spec: the declaration of \<^verbatim>\<open>Index\<close> is missing. The sentinel
  \<^verbatim>\<open>numeric_limits<Index>::max()\<close> is the maximum representable index, that of 64 bits.
\<close>

definition Index_max :: Index where
  "Index_max = 2 ^ 64 - 1"

text \<open>
  The output stream is the string written to it. \<^verbatim>\<open>operator<<\<close> writes an index in
  decimal; \<^verbatim>\<open>endl\<close> and \<^verbatim>\<open>"\n"\<close> write a line feed.
\<close>

definition tab :: char where
  "tab = CHR 0x09"

definition newline :: char where
  "newline = CHR 0x0A"

fun string_of_nat :: "nat \<Rightarrow> string" where
  "string_of_nat n =
     (if n < 10 then [''0123456789'' ! n]
      else string_of_nat (n div 10) @ [''0123456789'' ! (n mod 10)])"

declare string_of_nat.simps [simp del]

text \<open>
  \<^verbatim>\<open>BOOST_FOREACH(const value_type& slot, *this) { cout << slot.first << "\t"; }\<close>
\<close>

fun print_keys :: "VariableSlots \<Rightarrow> string \<Rightarrow> string" where
  "print_keys [] out = out"
| "print_keys (slot # rest) out = print_keys rest (out @ string_of_nat (fst slot) @ [tab])"

text \<open>
  The inner loop of \<^verbatim>\<open>print\<close>. The read \<^verbatim>\<open>slot.second[i]\<close> is unchecked: past the end of
  the vector it is undefined behaviour, the result \<open>None\<close>.
\<close>

fun print_row :: "VariableSlots \<Rightarrow> nat \<Rightarrow> string \<Rightarrow> string option" where
  "print_row [] i out = Some out"
| "print_row (slot # rest) i out =
     (if \<not> i < length (snd slot) then None
      else if snd slot ! i = Index_max then print_row rest i (out @ ''x'' @ [tab])
      else print_row rest i (out @ string_of_nat (snd slot ! i) @ [tab]))"

function print_rows :: "VariableSlots \<Rightarrow> nat \<Rightarrow> nat \<Rightarrow> string \<Rightarrow> string option" where
  "print_rows this n i out =
     (if i < n then
        (case print_row this i (out @ ''    '' @ [tab]) of
           None \<Rightarrow> None
         | Some out' \<Rightarrow> print_rows this n (Suc i) (out' @ [newline]))
      else Some out)"
  by pat_completeness auto
termination
  by (relation "measure (\<lambda>(this, n, i, out). n - i)") auto

declare print_rows.simps [simp del]

definition print :: "VariableSlots \<Rightarrow> string \<Rightarrow> string option" where
  "print this str =
     (if this = [] then Some (''empty'' @ [newline])
      else print_rows this (length (snd (hd this))) 0
             (print_keys this (str @ [newline] @ ''Var:'' @ [tab]) @ [newline]))"

text \<open>
  \<^verbatim>\<open>equals\<close> returns \<^verbatim>\<open>*this == rhs\<close>. The comparison of two ordered maps compares their
  sizes and then their entries in order, each entry by its key and its vector, each vector
  by its size and its elements. The tolerance is a \<^verbatim>\<open>double\<close>; its type is left open.
\<close>

definition vector_eq :: "Index list \<Rightarrow> Index list \<Rightarrow> bool" where
  "vector_eq xs ys = (length xs = length ys \<and> list_all2 (=) xs ys)"

definition map_eq :: "VariableSlots \<Rightarrow> VariableSlots \<Rightarrow> bool" where
  "map_eq a b =
     (length a = length b \<and> list_all2 (\<lambda>x y. fst x = fst y \<and> vector_eq (snd x) (snd y)) a b)"

definition equals :: "VariableSlots \<Rightarrow> VariableSlots \<Rightarrow> 'tol \<Rightarrow> bool" where
  "equals this rhs tol = map_eq this rhs"

subsection \<open>Auxiliary: reading the printed text as lines and cells\<close>

text \<open>
  \<open>split_at c s\<close> cuts \<open>s\<close> into the fields that \<open>c\<close> terminates; \<open>cell v\<close> is the text that
  the inner loop of \<^verbatim>\<open>print\<close> writes for the slot \<open>v\<close>.
\<close>

fun split_at :: "char \<Rightarrow> string \<Rightarrow> string list" where
  "split_at c [] = []"
| "split_at c (x # xs) =
     (if x = c then [] # split_at c xs
      else (case split_at c xs of [] \<Rightarrow> [[x]] | f # fs \<Rightarrow> (x # f) # fs))"

definition cell :: "Index \<Rightarrow> string" where
  "cell v = (if v = Index_max then ''x'' else string_of_nat v)"

section \<open>ImuFactorBase::predict (src/gtsam/navigation/ImuFactorBase.h)\<close>

text \<open>
  A \<^verbatim>\<open>double\<close> is a value of an arbitrary type \<open>'a\<close> with addition, subtraction,
  multiplication and negation, of which no law is assumed: what is proved holds for
  floating-point arithmetic as for any other. \<^verbatim>\<open>Vector3\<close> and the 3x3 matrices are
  triples with the componentwise operations of the matrix library.
\<close>

type_synonym 'a Vector3 = "'a \<times> 'a \<times> 'a"
type_synonym 'a Matrix3 = "'a Vector3 \<times> 'a Vector3 \<times> 'a Vector3"

definition v_add :: "'a::plus Vector3 \<Rightarrow> 'a Vector3 \<Rightarrow> 'a Vector3" where
  "v_add u v = (case (u, v) of ((a, b, c), (x, y, z)) \<Rightarrow> (a + x, b + y, c + z))"

definition v_sub :: "'a::minus Vector3 \<Rightarrow> 'a Vector3 \<Rightarrow> 'a Vector3" where
  "v_sub u v = (case (u, v) of ((a, b, c), (x, y, z)) \<Rightarrow> (a - x, b - y, c - z))"

definition v_scale :: "'a::times Vector3 \<Rightarrow> 'a \<Rightarrow> 'a Vector3" where
  "v_scale v s = (case v of (x, y, z) \<Rightarrow> (x * s, y * s, z * s))"

definition s_v :: "'a::times \<Rightarrow> 'a Vector3 \<Rightarrow> 'a Vector3" where
  "s_v s v = (case v of (x, y, z) \<Rightarrow> (s * x, s * y, s * z))"

definition dot :: "'a::{plus,times} Vector3 \<Rightarrow> 'a Vector3 \<Rightarrow> 'a" where
  "dot u v = (case (u, v) of ((a, b, c), (x, y, z)) \<Rightarrow> a * x + b * y + c * z)"

definition m_v :: "'a::{plus,times} Matrix3 \<Rightarrow> 'a Vector3 \<Rightarrow> 'a Vector3" where
  "m_v m v = (case m of (r1, r2, r3) \<Rightarrow> (dot r1 v, dot r2 v, dot r3 v))"

definition s_m :: "'a::times \<Rightarrow> 'a Matrix3 \<Rightarrow> 'a Matrix3" where
  "s_m s m = (case m of (r1, r2, r3) \<Rightarrow> (s_v s r1, s_v s r2, s_v s r3))"

definition m_neg :: "'a::uminus Matrix3 \<Rightarrow> 'a Matrix3" where
  "m_neg m = (case m of ((a, b, c), (d, e, f), (g, h, i)) \<Rightarrow>
     ((- a, - b, - c), (- d, - e, - f), (- g, - h, - i)))"

definition m_col :: "'a Matrix3 \<Rightarrow> nat \<Rightarrow> 'a Vector3" where
  "m_col m k = (case m of ((a, b, c), (d, e, f), (g, h, i)) \<Rightarrow>
     if k = 0 then (a, d, g) else if k = 1 then (b, e, h) else (c, f, i))"

definition m_m :: "'a::{plus,times} Matrix3 \<Rightarrow> 'a Matrix3 \<Rightarrow> 'a Matrix3" where
  "m_m m n = (case m of (r1, r2, r3) \<Rightarrow>
     ((dot r1 (m_col n 0), dot r1 (m_col n 1), dot r1 (m_col n 2)),
      (dot r2 (m_col n 0), dot r2 (m_col n 1), dot r2 (m_col n 2)),
      (dot r3 (m_col n 0), dot r3 (m_col n 1), dot r3 (m_col n 2))))"

text \<open>
  The classes \<^verbatim>\<open>imuBias::ConstantBias\<close>, \<^verbatim>\<open>Pose3\<close> and \<^verbatim>\<open>PreintegrationBase\<close> are declared in
  headers that are not among the sources; each is the record of the members that
  \<^verbatim>\<open>predict\<close> reads. \<^verbatim>\<open>PoseVelocityBias\<close> is the struct of ImuFactorBase.h.
\<close>

record 'a ConstantBias =
  accelerometer :: "'a Vector3"
  gyroscope :: "'a Vector3"

record ('a, 'rot) Pose3 =
  rotation :: 'rot
  translation :: "'a Vector3"

record ('a, 'rot) PreintegrationBase =
  deltaTij :: 'a
  biasHat :: "'a ConstantBias"
  deltaPij :: "'a Vector3"
  deltaVij :: "'a Vector3"
  delPdelBiasAcc :: "'a Matrix3"
  delPdelBiasOmega :: "'a Matrix3"
  delVdelBiasAcc :: "'a Matrix3"
  delVdelBiasOmega :: "'a Matrix3"
  biascorrectedDeltaRij :: "'a Vector3 \<Rightarrow> 'rot"

text \<open>
  The operations of \<^verbatim>\<open>Rot3\<close> and \<^verbatim>\<open>skewSymmetric\<close> are declared in headers that are not
  among the sources; they are parameters of the model, as are the \<^verbatim>\<open>double\<close> literals
  \<^verbatim>\<open>0.5\<close> and \<^verbatim>\<open>2\<close>.
\<close>

record ('a, 'rot) Externals =
  matrix :: "'rot \<Rightarrow> 'a Matrix3"
  rot_inverse :: "'rot \<Rightarrow> 'rot"
  rot_compose :: "'rot \<Rightarrow> 'rot \<Rightarrow> 'rot"
  Logmap :: "'rot \<Rightarrow> 'a Vector3"
  Expmap :: "'a Vector3 \<Rightarrow> 'rot"
  skewSymmetric :: "'a Vector3 \<Rightarrow> 'a Matrix3"
  half :: 'a
  two :: 'a

record ('a, 'rot) PoseVelocityBias =
  pose :: "('a, 'rot) Pose3"
  velocity :: "'a Vector3"
  bias :: "'a ConstantBias"

text \<open>
  \<^verbatim>\<open>ImuFactorBase::predict\<close>, statement by statement; an expression associates as C++
  parses it.
\<close>

definition predict ::
  "('a::{plus,minus,times,uminus}, 'rot) Externals \<Rightarrow> ('a, 'rot) Pose3 \<Rightarrow> 'a Vector3 \<Rightarrow>
   'a ConstantBias \<Rightarrow> ('a, 'rot) PreintegrationBase \<Rightarrow> 'a Vector3 \<Rightarrow> 'a Vector3 \<Rightarrow> bool \<Rightarrow>
   ('a, 'rot) PoseVelocityBias" where
  "predict G pose_i vel_i bias_i PIM gravity omegaCoriolis use2ndOrderCoriolis =
     (let dt = deltaTij PIM;
          biasAccIncr = v_sub (accelerometer bias_i) (accelerometer (biasHat PIM));
          biasOmegaIncr = v_sub (gyroscope bias_i) (gyroscope (biasHat PIM));
          Rot_i = rotation pose_i;
          pos_i = translation pose_i;
          S = skewSymmetric G omegaCoriolis;
          pos_j = v_add (v_sub (v_add (v_add pos_i
                    (m_v (matrix G Rot_i)
                       (v_add (v_add (deltaPij PIM) (m_v (delPdelBiasAcc PIM) biasAccIncr))
                          (m_v (delPdelBiasOmega PIM) biasOmegaIncr))))
                    (v_scale vel_i dt))
                    (v_scale (v_scale (m_v S vel_i) dt) dt))
                    (v_scale (v_scale (s_v (half G) gravity) dt) dt);
          vel_j = v_add (v_sub (v_add vel_i
                    (m_v (matrix G Rot_i)
                       (v_add (v_add (deltaVij PIM) (m_v (delVdelBiasAcc PIM) biasAccIncr))
                          (m_v (delVdelBiasOmega PIM) biasOmegaIncr))))
                    (v_scale (m_v (s_m (two G) S) vel_i) dt))
                    (v_scale gravity dt);
          pos_j = (if use2ndOrderCoriolis
                   then v_add pos_j
                          (v_scale (v_scale (m_v (m_m (s_m (- half G) S) S) pos_i) dt) dt)
                   else pos_j);
          vel_j = (if use2ndOrderCoriolis
                   then v_add vel_j (v_scale (m_v (m_m (m_neg S) S) pos_i) dt)
                   else vel_j);
          deltaRij_biascorrected = biascorrectedDeltaRij PIM biasOmegaIncr;
          theta_biascorrected = Logmap G deltaRij_biascorrected;
          theta_biascorrected_corioliscorrected =
            v_sub theta_biascorrected
              (v_scale (m_v (matrix G (rot_inverse G Rot_i)) omegaCoriolis) dt);
          deltaRij_biascorrected_corioliscorrected =
            Expmap G theta_biascorrected_corioliscorrected;
          Rot_j = rot_compose G Rot_i deltaRij_biascorrected_corioliscorrected;
          pose_j = \<lparr>rotation = Rot_j, translation = pos_j\<rparr>
      in \<lparr>pose = pose_j, velocity = vel_j, bias = bias_i\<rparr>)"

section \<open>Properties of Permutation\<close>

lemma put_Inr [simp]: "i < length p \<Longrightarrow> put p i v = Inr (p[i := v])"
  by (simp add: put_def)

lemma put_Inl [simp]: "\<not> i < length p \<Longrightarrow> put p i v = Inl ContractViolation"
  by (simp add: put_def)

lemma at_Inr [simp]: "i < length p \<Longrightarrow> at p i = Inr (p ! i)"
  by (simp add: at_def)

lemma at_Inl [simp]: "\<not> i < length p \<Longrightarrow> at p i = Inl ContractViolation"
  by (simp add: at_def)

lemma take_Suc_update: "i < length xs \<Longrightarrow> take (Suc i) (xs[i := v]) = take i xs @ [v]"
  by (simp add: take_Suc_conv_app_nth)

lemma Identity_loop_closed:
  "i \<le> nVars \<Longrightarrow> length ret = nVars \<Longrightarrow> Identity_loop nVars i ret = Inr (take i ret @ [i..<nVars])"
proof (induction nVars i ret rule: Identity_loop.induct)
  case (1 nVars i ret)
  show ?case
  proof (cases "i < nVars")
    case True
    with 1 have "Identity_loop nVars i ret = Identity_loop nVars (Suc i) (ret[i := i])"
      by (subst Identity_loop.simps) simp
    also have "\<dots> = Inr (take (Suc i) (ret[i := i]) @ [Suc i..<nVars])"
      using 1 True by simp
    also have "\<dots> = Inr (take i ret @ [i..<nVars])"
      using 1 True by (simp add: take_Suc_update upt_conv_Cons)
    finally show ?thesis .
  next
    case False
    with 1 show ?thesis by (subst Identity_loop.simps) simp
  qed
qed

lemma Identity_closed: "Identity nVars = Inr [0..<nVars]"
  by (simp add: Identity_def Permutation_new_def Identity_loop_closed)


lemma length_marks [simp]: "length (marks vs m) = length m"
  unfolding marks_def by (induction vs arbitrary: m) auto

lemma nth_set_True: "i < length m \<Longrightarrow> m[a := True] ! i = (m ! i \<or> i = a)"
  by (cases "a < length m") (auto simp: nth_list_update)

lemma nth_marks: "i < length m \<Longrightarrow> marks vs m ! i = (m ! i \<or> i \<in> set vs)"
  unfolding marks_def
  by (induction vs arbitrary: m) (auto simp: nth_set_True)

lemma marks_Cons: "marks (v # vs) m = marks vs (m[v := True])"
  by (simp add: marks_def)

lemma mark_flag_Inr [simp]: "v < length flags \<Longrightarrow> mark_flag flags v = Inr (flags[v := True])"
  by (simp add: mark_flag_def)

lemma mark_flag_Inl [simp]: "\<not> v < length flags \<Longrightarrow> mark_flag flags v = Inl UndefinedBehaviour"
  by (simp add: mark_flag_def)

lemma PullToFront_mark_closed:
  "j \<le> length toFront \<Longrightarrow> length toFront \<le> length ret \<Longrightarrow>
   set (drop j toFront) \<subseteq> {..<length pulled} \<Longrightarrow>
   PullToFront_mark toFront j ret pulled =
     Inr (take j ret @ drop j toFront @ drop (length toFront) ret, marks (drop j toFront) pulled)"
proof (induction toFront j ret pulled rule: PullToFront_mark.induct)
  case (1 toFront j ret pulled)
  show ?case
  proof (cases "j < length toFront")
    case True
    let ?v = "toFront ! j"
    have dr: "drop j toFront = ?v # drop (Suc j) toFront"
      using True by (simp add: Cons_nth_drop_Suc)
    from "1.prems"(3) have v: "?v < length pulled"
      and rest: "set (drop (Suc j) toFront) \<subseteq> {..<length (pulled[?v := True])}"
      by (simp_all add: dr)
    from "1.prems" True have p: "put ret j ?v = Inr (ret[j := ?v])" by simp
    from v have m: "mark_flag pulled ?v = Inr (pulled[?v := True])" by simp
    have "PullToFront_mark toFront j ret pulled =
        PullToFront_mark toFront (Suc j) (ret[j := ?v]) (pulled[?v := True])"
      using True by (subst PullToFront_mark.simps) (simp add: p m)
    also have "\<dots> = Inr (take (Suc j) (ret[j := ?v]) @ drop (Suc j) toFront @ drop (length toFront) (ret[j := ?v]),
        marks (drop (Suc j) toFront) (pulled[?v := True]))"
      by (rule "1.IH" [OF True p m]) (use "1.prems" True rest in simp_all)
    also have "\<dots> = Inr (take j ret @ drop j toFront @ drop (length toFront) ret, marks (drop j toFront) pulled)"
      using "1.prems" True by (simp add: take_Suc_update marks_Cons flip: Cons_nth_drop_Suc)
    finally show ?thesis .
  next
    case False
    with "1.prems" show ?thesis by (subst PullToFront_mark.simps) (simp add: marks_def)
  qed
qed

lemma PullToFront_mark_fail:
  "j \<le> length ret \<Longrightarrow> length ret < length toFront \<Longrightarrow>
   set (drop j toFront) \<subseteq> {..<length pulled} \<Longrightarrow>
   PullToFront_mark toFront j ret pulled = Inl ContractViolation"
proof (induction toFront j ret pulled rule: PullToFront_mark.induct)
  case (1 toFront j ret pulled)
  from "1.prems" have jk: "j < length toFront" by simp
  show ?case
  proof (cases "j < length ret")
    case True
    let ?v = "toFront ! j"
    have dr: "drop j toFront = ?v # drop (Suc j) toFront"
      using jk by (simp add: Cons_nth_drop_Suc)
    from "1.prems"(3) have v: "?v < length pulled"
      and rest: "set (drop (Suc j) toFront) \<subseteq> {..<length (pulled[?v := True])}"
      by (simp_all add: dr)
    from True have p: "put ret j ?v = Inr (ret[j := ?v])" by simp
    from v have m: "mark_flag pulled ?v = Inr (pulled[?v := True])" by simp
    have "PullToFront_mark toFront j ret pulled =
        PullToFront_mark toFront (Suc j) (ret[j := ?v]) (pulled[?v := True])"
      using jk by (subst PullToFront_mark.simps) (simp add: p m)
    also have "\<dots> = Inl ContractViolation"
      by (rule "1.IH" [OF jk p m]) (use "1.prems" True rest in simp_all)
    finally show ?thesis .
  next
    case False
    with jk show ?thesis by (subst PullToFront_mark.simps) simp
  qed
qed

lemma fill_rest_closed:
  "j \<le> sz \<Longrightarrow> nextVar \<le> length ret \<Longrightarrow>
   fill_rest sz j nextVar ret flags =
     (let rest = filter (\<lambda>v. \<not> flags ! v) [j..<sz] in
      if nextVar + length rest \<le> length ret
      then Inr (take nextVar ret @ rest @ drop (nextVar + length rest) ret, nextVar + length rest)
      else Inl ContractViolation)"
proof (induction sz j nextVar ret flags rule: fill_rest.induct)
  case (1 sz j nextVar ret flags)
  show ?case
  proof (cases "j < sz")
    case False
    with 1 show ?thesis by (subst fill_rest.simps) simp
  next
    case True
    note j = True
    show ?thesis
    proof (cases "flags ! j")
      case True
      with 1 j show ?thesis
        by (subst fill_rest.simps) (simp add: upt_conv_Cons)
    next
      case False
      note nf = False
      show ?thesis
      proof (cases "nextVar < length ret")
        case False
        with 1 j nf show ?thesis
          by (subst fill_rest.simps) (simp add: upt_conv_Cons)
      next
        case True
        with 1 j nf have "fill_rest sz j nextVar ret flags =
            fill_rest sz (Suc j) (Suc nextVar) (ret[nextVar := j]) flags"
          by (subst fill_rest.simps) simp
        also have "\<dots> = (let rest = filter (\<lambda>v. \<not> flags ! v) [Suc j..<sz] in
          if Suc nextVar + length rest \<le> length (ret[nextVar := j])
          then Inr (take (Suc nextVar) (ret[nextVar := j]) @ rest @ drop (Suc nextVar + length rest) (ret[nextVar := j]), Suc nextVar + length rest)
          else Inl ContractViolation)"
          using 1 j nf True by simp
        also have "\<dots> = (let rest = filter (\<lambda>v. \<not> flags ! v) [j..<sz] in
          if nextVar + length rest \<le> length ret
          then Inr (take nextVar ret @ rest @ drop (nextVar + length rest) ret, nextVar + length rest)
          else Inl ContractViolation)"
          using j nf True by (simp add: upt_conv_Cons take_Suc_update Let_def)
        finally show ?thesis .
      qed
    qed
  qed
qed


lemma marks_replicate_filter:
  "filter (\<lambda>v. \<not> marks vs (replicate sz False) ! v) [j..<sz] = filter (\<lambda>v. v \<notin> set vs) [j..<sz]"
  by (rule filter_cong) (auto simp: nth_marks)

lemma length_filter_notin:
  "length (filter (\<lambda>v. v \<notin> set vs) [0..<sz]) = sz - card (set vs \<inter> {..<sz})"
proof -
  have "length (filter (\<lambda>v. v \<notin> set vs) [0..<sz]) = card (set (filter (\<lambda>v. v \<notin> set vs) [0..<sz]))"
    by (rule distinct_card [symmetric]) simp
  also have "set (filter (\<lambda>v. v \<notin> set vs) [0..<sz]) = {..<sz} - set vs"
    by auto
  also have "card ({..<sz} - set vs) = card {..<sz} - card ({..<sz} \<inter> set vs)"
    by (rule card_Diff_subset_Int) simp
  finally show ?thesis by (simp add: Int_commute)
qed

lemma card_Int_le_length: "card (set vs \<inter> A) \<le> length vs"
  by (meson List.finite_set card_length card_mono inf_le1 le_trans)

lemma card_Int_eq_length:
  "card (set vs \<inter> A) = length vs \<longleftrightarrow> distinct vs \<and> set vs \<subseteq> A"
proof
  assume eq: "card (set vs \<inter> A) = length vs"
  have "card (set vs \<inter> A) \<le> card (set vs)" by (simp add: card_mono)
  with eq card_length [of vs] have c: "card (set vs) = length vs" by simp
  then have "distinct vs" by (simp add: card_distinct)
  moreover from eq c have "set vs \<inter> A = set vs"
    by (intro card_subset_eq) auto
  ultimately show "distinct vs \<and> set vs \<subseteq> A" by auto
next
  assume "distinct vs \<and> set vs \<subseteq> A"
  then show "card (set vs \<inter> A) = length vs"
    by (simp add: Int_absorb2 distinct_card)
qed

lemma valid_length_le: "distinct vs \<Longrightarrow> set vs \<subseteq> {..<sz} \<Longrightarrow> length vs \<le> sz"
  by (metis card_lessThan card_mono distinct_card finite_lessThan)

lemma PullToFront_closed:
  assumes r: "set toFront \<subseteq> {..<sz}"
  shows "PullToFront toFront sz =
     (if distinct toFront
      then Inr (toFront @ filter (\<lambda>v. v \<notin> set toFront) [0..<sz])
      else Inl ContractViolation)"
proof (cases "length toFront \<le> sz")
  case False
  then have "\<not> distinct toFront"
    using valid_length_le r by blast
  moreover from False r have "PullToFront toFront sz = Inl ContractViolation"
    by (simp add: PullToFront_def Permutation_new_def PullToFront_mark_fail)
  ultimately show ?thesis by simp
next
  case True
  let ?k = "length toFront"
  let ?m = "card (set toFront \<inter> {..<sz})"
  let ?rest = "filter (\<lambda>v. v \<notin> set toFront) [0..<sz]"
  have m: "?m \<le> ?k" by (rule card_Int_le_length)
  have len: "length ?rest = sz - ?m" by (rule length_filter_notin)
  have mark: "PullToFront_mark toFront 0 (Permutation_new sz) (replicate sz False) =
      Inr (toFront @ replicate (sz - ?k) 0, marks toFront (replicate sz False))"
    using True r by (simp add: Permutation_new_def PullToFront_mark_closed)
  have fill: "fill_rest sz 0 ?k (toFront @ replicate (sz - ?k) 0) (marks toFront (replicate sz False)) =
      (if ?k + length ?rest \<le> sz
       then Inr (toFront @ ?rest @ replicate (sz - (?k + length ?rest)) 0, ?k + length ?rest)
       else Inl ContractViolation)"
    using True by (simp add: fill_rest_closed marks_replicate_filter Let_def)
  show ?thesis
  proof (cases "distinct toFront")
    case valid: True
    with r have "?m = ?k" by (simp add: card_Int_eq_length)
    with len True have "?k + length ?rest = sz" by simp
    with valid show ?thesis
      by (simp add: PullToFront_def mark fill)
  next
    case invalid: False
    then have "?m \<noteq> ?k" by (simp add: card_Int_eq_length)
    with m len True have "?k + length ?rest \<noteq> sz" by simp
    with invalid show ?thesis
      by (simp add: PullToFront_def mark fill)
  qed
qed

lemma PushToBack_mark_closed:
  "j \<le> length toBack \<Longrightarrow> nextVar + (length toBack - j) \<le> length ret \<Longrightarrow>
   set (drop j toBack) \<subseteq> {..<length pushed} \<Longrightarrow>
   PushToBack_mark toBack j nextVar ret pushed =
     Inr (take nextVar ret @ drop j toBack @ drop (nextVar + (length toBack - j)) ret,
          marks (drop j toBack) pushed, nextVar + (length toBack - j))"
proof (induction toBack j nextVar ret pushed rule: PushToBack_mark.induct)
  case (1 toBack j nextVar ret pushed)
  show ?case
  proof (cases "j < length toBack")
    case True
    let ?v = "toBack ! j"
    have dr: "drop j toBack = ?v # drop (Suc j) toBack"
      using True by (simp add: Cons_nth_drop_Suc)
    from "1.prems"(3) have v: "?v < length pushed"
      and rest: "set (drop (Suc j) toBack) \<subseteq> {..<length (pushed[?v := True])}"
      by (simp_all add: dr)
    from "1.prems" True have nv: "nextVar < length ret" by simp
    then have p: "put ret nextVar ?v = Inr (ret[nextVar := ?v])" by simp
    from v have m: "mark_flag pushed ?v = Inr (pushed[?v := True])" by simp
    have "PushToBack_mark toBack j nextVar ret pushed =
        PushToBack_mark toBack (Suc j) (Suc nextVar) (ret[nextVar := ?v]) (pushed[?v := True])"
      using True by (subst PushToBack_mark.simps) (simp add: p m)
    also have "\<dots> = Inr (take (Suc nextVar) (ret[nextVar := ?v]) @ drop (Suc j) toBack @
          drop (Suc nextVar + (length toBack - Suc j)) (ret[nextVar := ?v]),
        marks (drop (Suc j) toBack) (pushed[?v := True]), Suc nextVar + (length toBack - Suc j))"
      by (rule "1.IH" [OF True p m]) (use "1.prems" True rest in simp_all)
    also have "\<dots> = Inr (take nextVar ret @ drop j toBack @ drop (nextVar + (length toBack - j)) ret,
          marks (drop j toBack) pushed, nextVar + (length toBack - j))"
      using True nv by (simp add: take_Suc_update marks_Cons Suc_diff_Suc flip: Cons_nth_drop_Suc)
    finally show ?thesis .
  next
    case False
    with "1.prems" show ?thesis by (subst PushToBack_mark.simps) (simp add: marks_def)
  qed
qed

lemma PushToBack_closed:
  assumes "distinct toBack" and "set toBack \<subseteq> {..<sz}"
  shows "PushToBack toBack sz = Inr (filter (\<lambda>v. v \<notin> set toBack) [0..<sz] @ toBack)"
proof -
  let ?k = "length toBack"
  let ?rest = "filter (\<lambda>v. v \<notin> set toBack) [0..<sz]"
  from assms have k: "?k \<le> sz" by (rule valid_length_le)
  from assms have "card (set toBack \<inter> {..<sz}) = ?k" by (simp add: card_Int_eq_length)
  then have len: "length ?rest = sz - ?k" by (simp add: length_filter_notin)
  have mark: "PushToBack_mark toBack 0 (sz - ?k) (Permutation_new sz) (replicate sz False) =
      Inr (replicate (sz - ?k) 0 @ toBack, marks toBack (replicate sz False), sz)"
    using k assms(2) by (simp add: Permutation_new_def PushToBack_mark_closed)
  have fill: "fill_rest sz 0 0 (replicate (sz - ?k) 0 @ toBack) (marks toBack (replicate sz False)) =
      Inr (?rest @ toBack, sz - ?k)"
    using k len by (simp add: fill_rest_closed marks_replicate_filter Let_def)
  show ?thesis
    using k by (simp add: PushToBack_def usub_def mark fill)
qed

lemma permute_loop_closed:
  "j \<le> length permutation \<Longrightarrow> length result = length permutation \<Longrightarrow>
   permute_loop this permutation j result =
     (if set (drop j permutation) \<subseteq> {..<length this}
      then Inr (take j result @ map ((!) this) (drop j permutation))
      else Inl ContractViolation)"
proof (induction this permutation j result rule: permute_loop.induct)
  case (1 this permutation j result)
  show ?case
  proof (cases "j < length permutation")
    case False
    with 1 show ?thesis by (subst permute_loop.simps) simp
  next
    case True
    note j = True
    have dr: "drop j permutation = permutation ! j # drop (Suc j) permutation"
      using j by (simp add: Cons_nth_drop_Suc)
    show ?thesis
    proof (cases "permutation ! j < length this")
      case False
      with 1 j show ?thesis
        by (subst permute_loop.simps) (simp add: dr)
    next
      case True
      let ?v = "this ! (permutation ! j)"
      from 1 j True have "permute_loop this permutation j result =
          permute_loop this permutation (Suc j) (result[j := ?v])"
        by (subst permute_loop.simps) simp
      also have "\<dots> = (if set (drop (Suc j) permutation) \<subseteq> {..<length this}
          then Inr (take (Suc j) (result[j := ?v]) @ map ((!) this) (drop (Suc j) permutation))
          else Inl ContractViolation)"
        using 1 j True by simp
      also have "\<dots> = (if set (drop j permutation) \<subseteq> {..<length this}
          then Inr (take j result @ map ((!) this) (drop j permutation))
          else Inl ContractViolation)"
        using 1 j True by (simp add: dr take_Suc_update)
      finally show ?thesis .
    qed
  qed
qed

lemma permute_closed:
  "permute this permutation =
     (if set permutation \<subseteq> {..<length this} then Inr (map ((!) this) permutation)
      else Inl ContractViolation)"
  by (simp add: permute_def Permutation_new_def permute_loop_closed)

lemma inverse_loop_spec:
  "i \<le> length this \<Longrightarrow> length result = length this \<Longrightarrow> distinct this \<Longrightarrow>
   set this \<subseteq> {..<length this} \<Longrightarrow>
   \<exists>q. inverse_loop this i result = Inr q \<and> length q = length this \<and>
       (\<forall>i'. i \<le> i' \<and> i' < length this \<longrightarrow> q ! (this ! i') = i') \<and>
       (\<forall>v. v \<notin> set (drop i this) \<longrightarrow> q ! v = result ! v)"
proof (induction this i result rule: inverse_loop.induct)
  case (1 this i result)
  show ?case
  proof (cases "i < length this")
    case False
    with 1 show ?thesis by (subst inverse_loop.simps) simp
  next
    case True
    let ?v = "this ! i"
    from 1 True have v: "?v < length this" by (auto simp: subset_iff)
    have dr: "drop i this = ?v # drop (Suc i) this"
      using True by (simp add: Cons_nth_drop_Suc)
    from 1 have "distinct (drop i this)" by simp
    then have notin: "?v \<notin> set (drop (Suc i) this)" by (simp add: dr)
    from 1 True v have step: "inverse_loop this i result = inverse_loop this (Suc i) (result[?v := i])"
      by (subst inverse_loop.simps) simp
    have "\<exists>q. inverse_loop this (Suc i) (result[?v := i]) = Inr q \<and> length q = length this \<and>
       (\<forall>i'. Suc i \<le> i' \<and> i' < length this \<longrightarrow> q ! (this ! i') = i') \<and>
       (\<forall>v. v \<notin> set (drop (Suc i) this) \<longrightarrow> q ! v = (result[?v := i]) ! v)"
      by (rule "1.IH" [of ?v "result[?v := i]"]) (use 1 True v in simp_all)
    then obtain q where q: "inverse_loop this (Suc i) (result[?v := i]) = Inr q"
      "length q = length this"
      "\<forall>i'. Suc i \<le> i' \<and> i' < length this \<longrightarrow> q ! (this ! i') = i'"
      "\<forall>v. v \<notin> set (drop (Suc i) this) \<longrightarrow> q ! v = (result[?v := i]) ! v"
      by blast
    have qv: "q ! ?v = i" using q(4) notin 1 v by simp
    have a: "\<forall>i'. i \<le> i' \<and> i' < length this \<longrightarrow> q ! (this ! i') = i'"
    proof (intro allI impI)
      fix i' assume i': "i \<le> i' \<and> i' < length this"
      show "q ! (this ! i') = i'"
      proof (cases "i' = i")
        case True
        with qv show ?thesis by simp
      next
        case False
        with i' have "Suc i \<le> i'" by simp
        with q(3) i' show ?thesis by simp
      qed
    qed
    have b: "\<forall>v. v \<notin> set (drop i this) \<longrightarrow> q ! v = result ! v"
      using q(4) by (simp add: dr)
    show ?thesis using step q(1,2) a b by simp
  qed
qed

lemma inverse_spec:
  assumes "distinct this" and "set this \<subseteq> {..<length this}"
  shows "\<exists>q. inverse_perm this = Inr q \<and> length q = length this \<and>
       (\<forall>i < length this. q ! (this ! i) = i)"
  using inverse_loop_spec [of 0 this "Permutation_new (length this)"] assms
  by (auto simp: inverse_perm_def Permutation_new_def)

lemma bij_distinct: "set p = {..<length p} \<Longrightarrow> distinct p"
  by (simp add: card_distinct)

lemma inverse_bij:
  assumes "set p = {..<length p}" "length q = length p" "\<forall>i < length p. q ! (p ! i) = i"
  shows "set q = {..<length q}" and "\<forall>j < length p. p ! (q ! j) = j"
proof -
  have onto: "\<exists>i < length p. p ! i = j" if "j < length p" for j
  proof -
    from that assms(1) have "j \<in> set p" by simp
    then show ?thesis by (simp add: in_set_conv_nth)
  qed
  have pq: "p ! (q ! j) = j" if "j < length p" for j
  proof -
    from onto [OF that] obtain i where "i < length p" "p ! i = j" by blast
    with assms(3) show ?thesis by auto
  qed
  then show "\<forall>j < length p. p ! (q ! j) = j" by simp
  have qlt: "q ! j < length p" if "j < length p" for j
  proof -
    from onto [OF that] obtain i where "i < length p" "p ! i = j" by blast
    with assms(3) show ?thesis by auto
  qed
  have sub: "set q \<subseteq> {..<length p}"
  proof
    fix x assume "x \<in> set q"
    then obtain j where "j < length q" "q ! j = x" by (auto simp: in_set_conv_nth)
    with qlt assms(2) show "x \<in> {..<length p}" by auto
  qed
  have "i \<in> set q" if "i < length p" for i
  proof -
    have "p ! i \<in> set p" using that by simp
    with assms(1) have "p ! i < length q" using assms(2) by simp
    then have "q ! (p ! i) \<in> set q" by simp
    with assms(3) that show ?thesis by simp
  qed
  with sub show "set q = {..<length q}" using assms(2) by auto
qed


lemma partialPermutation_loop_spec:
  "subsetPos \<le> length selector \<Longrightarrow> length partialPerm = length selector \<Longrightarrow>
   length result = length this \<Longrightarrow> distinct selector \<Longrightarrow>
   set selector \<subseteq> {..<length this} \<Longrightarrow> set partialPerm \<subseteq> {..<length selector} \<Longrightarrow>
   \<exists>r. partialPermutation_loop this selector partialPerm subsetPos result = Inr r \<and>
       length r = length this \<and>
       (\<forall>j. subsetPos \<le> j \<and> j < length selector \<longrightarrow>
            r ! (selector ! j) = this ! (selector ! (partialPerm ! j))) \<and>
       (\<forall>i. i \<notin> set (drop subsetPos selector) \<longrightarrow> r ! i = result ! i)"
proof (induction this selector partialPerm subsetPos result rule: partialPermutation_loop.induct)
  case (1 this selector partialPerm subsetPos result)
  show ?case
  proof (cases "subsetPos < length selector")
    case False
    with 1 show ?thesis by (subst partialPermutation_loop.simps) simp
  next
    case True
    let ?s = "partialPerm ! subsetPos"
    let ?src = "selector ! ?s"
    let ?v = "this ! ?src"
    let ?dst = "selector ! subsetPos"
    let ?res = "result[?dst := ?v]"
    from 1 True have s: "?s < length selector" by (auto simp: subset_iff)
    with 1 have src: "?src < length this" by (auto simp: subset_iff)
    from 1 True have dst: "?dst < length this" by (auto simp: subset_iff)
    have dr: "drop subsetPos selector = ?dst # drop (Suc subsetPos) selector"
      using True by (simp add: Cons_nth_drop_Suc)
    from 1 have "distinct (drop subsetPos selector)" by simp
    then have notin: "?dst \<notin> set (drop (Suc subsetPos) selector)" by (simp add: dr)
    from 1 True s src dst
    have step: "partialPermutation_loop this selector partialPerm subsetPos result =
        partialPermutation_loop this selector partialPerm (Suc subsetPos) ?res"
      by (subst partialPermutation_loop.simps) simp
    have "\<exists>r. partialPermutation_loop this selector partialPerm (Suc subsetPos) ?res = Inr r \<and>
       length r = length this \<and>
       (\<forall>j. Suc subsetPos \<le> j \<and> j < length selector \<longrightarrow>
            r ! (selector ! j) = this ! (selector ! (partialPerm ! j))) \<and>
       (\<forall>i. i \<notin> set (drop (Suc subsetPos) selector) \<longrightarrow> r ! i = ?res ! i)"
      by (rule "1.IH" [of ?s ?src ?v ?dst ?res]) (use 1 True s src dst in simp_all)
    then obtain r where r: "partialPermutation_loop this selector partialPerm (Suc subsetPos) ?res = Inr r"
      "length r = length this"
      "\<forall>j. Suc subsetPos \<le> j \<and> j < length selector \<longrightarrow>
            r ! (selector ! j) = this ! (selector ! (partialPerm ! j))"
      "\<forall>i. i \<notin> set (drop (Suc subsetPos) selector) \<longrightarrow> r ! i = ?res ! i"
      by blast
    have rd: "r ! ?dst = ?v" using r(4) notin 1 dst by simp
    have a: "\<forall>j. subsetPos \<le> j \<and> j < length selector \<longrightarrow>
            r ! (selector ! j) = this ! (selector ! (partialPerm ! j))"
    proof (intro allI impI)
      fix j assume j: "subsetPos \<le> j \<and> j < length selector"
      show "r ! (selector ! j) = this ! (selector ! (partialPerm ! j))"
      proof (cases "j = subsetPos")
        case True
        with rd show ?thesis by simp
      next
        case False
        with j have "Suc subsetPos \<le> j" by simp
        with r(3) j show ?thesis by simp
      qed
    qed
    have b: "\<forall>i. i \<notin> set (drop subsetPos selector) \<longrightarrow> r ! i = result ! i"
      using r(4) by (simp add: dr)
    show ?thesis using step r(1,2) a b by simp
  qed
qed

lemma partialPermutation_spec:
  assumes "length partialPerm = length selector" "distinct selector"
    "set selector \<subseteq> {..<length this}" "set partialPerm \<subseteq> {..<length selector}"
  shows "\<exists>r. partialPermutation this selector partialPerm = Inr r \<and> length r = length this \<and>
       (\<forall>j < length selector. r ! (selector ! j) = this ! (selector ! (partialPerm ! j))) \<and>
       (\<forall>i. i \<notin> set selector \<longrightarrow> r ! i = this ! i)"
  using partialPermutation_loop_spec [of 0 selector partialPerm this this] assms
  by (auto simp: partialPermutation_def)


lemma rest_sorted: "sorted_wrt (<) (filter (\<lambda>v. v \<notin> set vs) [0..<sz])"
  by (rule sorted_wrt_filter) simp

lemma rest_set: "set (filter (\<lambda>v. v \<notin> set vs) [0..<sz]) = {..<sz} - set vs"
  by auto

lemma rest_length:
  "distinct vs \<Longrightarrow> set vs \<subseteq> {..<sz} \<Longrightarrow>
   length (filter (\<lambda>v. v \<notin> set vs) [0..<sz]) = sz - length vs"
  using card_Int_eq_length [of vs "{..<sz}"] by (simp add: length_filter_notin)

lemma bij_subset: "set p = {..<length p} \<Longrightarrow> set p \<subseteq> {..<length p}"
  by simp

text \<open>
  Claim C1. Every permutation built by \<^verbatim>\<open>Identity(n)\<close>, by \<^verbatim>\<open>PullToFront(targets, n)\<close> or
  \<^verbatim>\<open>PushToBack(targets, n)\<close> with duplicate-free targets all below \<open>n\<close>, by \<^verbatim>\<open>permute\<close> of
  two bijections of size \<open>n\<close>, or by \<^verbatim>\<open>inverse\<close> of a bijection of size \<open>n\<close>, is returned
  (no assertion fails) and is a sequence of length \<open>n\<close> whose values are exactly the
  set \<open>{0, \<dots>, n - 1}\<close>.
\<close>

theorem Permutation_bijection:
  "(\<exists>r. Identity n = Inr r \<and> length r = n \<and> set r = {..<n}) \<and>
   (distinct targets \<and> set targets \<subseteq> {..<n} \<longrightarrow>
      (\<exists>r. PullToFront targets n = Inr r \<and> length r = n \<and> set r = {..<n})) \<and>
   (distinct targets \<and> set targets \<subseteq> {..<n} \<longrightarrow>
      (\<exists>r. PushToBack targets n = Inr r \<and> length r = n \<and> set r = {..<n})) \<and>
   (length p = n \<and> set p = {..<n} \<and> length q = n \<and> set q = {..<n} \<longrightarrow>
      (\<exists>r. permute p q = Inr r \<and> length r = n \<and> set r = {..<n})) \<and>
   (length p = n \<and> set p = {..<n} \<longrightarrow>
      (\<exists>r. inverse_perm p = Inr r \<and> length r = n \<and> set r = {..<n}))"
proof (intro conjI impI)
  show "\<exists>r. Identity n = Inr r \<and> length r = n \<and> set r = {..<n}"
    by (auto simp: Identity_closed)
next
  assume v: "distinct targets \<and> set targets \<subseteq> {..<n}"
  then have "length (targets @ filter (\<lambda>v. v \<notin> set targets) [0..<n]) = n"
    using valid_length_le [of targets n] by (simp add: rest_length)
  moreover have "set (targets @ filter (\<lambda>v. v \<notin> set targets) [0..<n]) = {..<n}"
    using v by auto
  ultimately show "\<exists>r. PullToFront targets n = Inr r \<and> length r = n \<and> set r = {..<n}"
    using v by (simp add: PullToFront_closed)
next
  assume v: "distinct targets \<and> set targets \<subseteq> {..<n}"
  then have "length (filter (\<lambda>v. v \<notin> set targets) [0..<n] @ targets) = n"
    using valid_length_le [of targets n] by (simp add: rest_length)
  moreover have "set (filter (\<lambda>v. v \<notin> set targets) [0..<n] @ targets) = {..<n}"
    using v by auto
  ultimately show "\<exists>r. PushToBack targets n = Inr r \<and> length r = n \<and> set r = {..<n}"
    using v by (simp add: PushToBack_closed)
next
  assume a: "length p = n \<and> set p = {..<n} \<and> length q = n \<and> set q = {..<n}"
  have "set (map ((!) p) q) = {..<n}"
  proof -
    have "set (map ((!) p) q) = (!) p ` {..<length p}" using a by simp
    also have "\<dots> = set p" by (auto simp: set_conv_nth)
    finally show ?thesis using a by simp
  qed
  with a show "\<exists>r. permute p q = Inr r \<and> length r = n \<and> set r = {..<n}"
    by (simp add: permute_closed)
next
  assume a: "length p = n \<and> set p = {..<n}"
  then have d: "distinct p" and s: "set p \<subseteq> {..<length p}"
    by (simp_all add: bij_distinct)
  from inverse_spec [OF d s] obtain r where r: "inverse_perm p = Inr r" "length r = length p"
    "\<forall>i < length p. r ! (p ! i) = i" by blast
  from a r have "set r = {..<length r}" by (intro inverse_bij(1) [of p r]) simp_all
  with a r show "\<exists>r. inverse_perm p = Inr r \<and> length r = n \<and> set r = {..<n}" by simp
qed

text \<open>The hypotheses of C1 hold at \<open>n = 3\<close>, targets \<open>[2, 0]\<close>, \<open>p = [1, 2, 0]\<close>, \<open>q = [2, 1, 0]\<close>.\<close>

theorem Permutation_bijection_witness:
  "distinct [2, 0 :: nat] \<and> set [2, 0 :: nat] \<subseteq> {..<3} \<and>
   length [1, 2, 0 :: nat] = 3 \<and> set [1, 2, 0 :: nat] = {..<3} \<and>
   length [2, 1, 0 :: nat] = 3 \<and> set [2, 1, 0 :: nat] = {..<3} \<and>
   (\<exists>r. Identity 3 = Inr r \<and> length r = 3 \<and> set r = {..<3}) \<and>
   (\<exists>r. PullToFront [2, 0] 3 = Inr r \<and> length r = 3 \<and> set r = {..<3}) \<and>
   (\<exists>r. PushToBack [2, 0] 3 = Inr r \<and> length r = 3 \<and> set r = {..<3}) \<and>
   (\<exists>r. permute [1, 2, 0] [2, 1, 0] = Inr r \<and> length r = 3 \<and> set r = {..<3}) \<and>
   (\<exists>r. inverse_perm [1, 2, 0] = Inr r \<and> length r = 3 \<and> set r = {..<3})"
proof -
  have h1: "distinct [2, 0 :: nat] \<and> set [2, 0 :: nat] \<subseteq> {..<3}" by simp
  have h2: "length [1, 2, 0 :: nat] = 3 \<and> set [1, 2, 0 :: nat] = {..<3}" by auto
  have h3: "length [2, 1, 0 :: nat] = 3 \<and> set [2, 1, 0 :: nat] = {..<3}" by auto
  show ?thesis
    using Permutation_bijection [of 3 "[2, 0]" "[1, 2, 0]" "[2, 1, 0]"] h1 h2 h3 by blast
qed

text \<open>
  Claim C2. For duplicate-free targets with all ids below \<open>n\<close>, \<^verbatim>\<open>PullToFront(targets, n)\<close>
  returns a permutation of length \<open>n\<close> in which \<open>targets[j]\<close> occupies position \<open>j\<close> for
  every \<open>j < k\<close> (\<open>k\<close> the number of targets), and positions \<open>k, \<dots>, n - 1\<close> hold the
  remaining variables in ascending order of their ids. In particular
  \<^verbatim>\<open>PullToFront([2,0], 4)\<close> is \<open>[2, 0, 1, 3]\<close>.
\<close>

theorem PullToFront_positions:
  "(distinct targets \<and> set targets \<subseteq> {..<n} \<longrightarrow>
      (\<exists>r. PullToFront targets n = Inr r \<and> length r = n \<and>
           (\<forall>j < length targets. r ! j = targets ! j) \<and>
           sorted_wrt (<) (drop (length targets) r) \<and>
           set (drop (length targets) r) = {..<n} - set targets)) \<and>
   PullToFront [2, 0] 4 = Inr [2, 0, 1, 3]"
proof (intro conjI impI)
  assume v: "distinct targets \<and> set targets \<subseteq> {..<n}"
  let ?r = "targets @ filter (\<lambda>v. v \<notin> set targets) [0..<n]"
  have dr: "drop (length targets) ?r = filter (\<lambda>v. v \<notin> set targets) [0..<n]"
    by simp
  have "length ?r = n"
    using v valid_length_le [of targets n] by (simp add: rest_length)
  moreover have "\<forall>j < length targets. ?r ! j = targets ! j"
    by (simp add: nth_append)
  moreover have "sorted_wrt (<) (drop (length targets) ?r)"
    unfolding dr by (rule rest_sorted)
  moreover have "set (drop (length targets) ?r) = {..<n} - set targets"
    unfolding dr by (rule rest_set)
  ultimately show "\<exists>r. PullToFront targets n = Inr r \<and> length r = n \<and>
           (\<forall>j < length targets. r ! j = targets ! j) \<and>
           sorted_wrt (<) (drop (length targets) r) \<and>
           set (drop (length targets) r) = {..<n} - set targets"
    using v by (simp add: PullToFront_closed)
next
  show "PullToFront [2, 0] 4 = Inr [2, 0, 1, 3]"
    by code_simp
qed

text \<open>The hypotheses of C2 hold for the targets \<open>[3, 1]\<close> among five variables.\<close>

theorem PullToFront_positions_witness:
  "distinct [3, 1 :: nat] \<and> set [3, 1 :: nat] \<subseteq> {..<5} \<and>
   (\<exists>r. PullToFront [3, 1] 5 = Inr r \<and> length r = 5 \<and>
        (\<forall>j < length [3, 1 :: nat]. r ! j = [3, 1] ! j) \<and>
        sorted_wrt (<) (drop (length [3, 1 :: nat]) r) \<and>
        set (drop (length [3, 1 :: nat]) r) = {..<5} - set [3, 1])"
proof -
  have h: "distinct [3, 1 :: nat] \<and> set [3, 1 :: nat] \<subseteq> {..<5}" by simp
  from PullToFront_positions [of "[3, 1]" 5] h show ?thesis by blast
qed

text \<open>
  Claim C3. For duplicate-free targets with all ids below \<open>n\<close>, \<^verbatim>\<open>PushToBack(targets, n)\<close>
  returns a permutation of length \<open>n\<close> in which \<open>targets[j]\<close> occupies position
  \<open>n - k + j\<close> for every \<open>j < k\<close> (\<open>k\<close> the number of targets), and positions
  \<open>0, \<dots>, n - k - 1\<close> hold the remaining variables in ascending order of their ids.
  In particular \<^verbatim>\<open>PushToBack([2,0], 4)\<close> is \<open>[1, 3, 2, 0]\<close>.
\<close>

theorem PushToBack_positions:
  "(distinct targets \<and> set targets \<subseteq> {..<n} \<longrightarrow>
      (\<exists>r. PushToBack targets n = Inr r \<and> length r = n \<and>
           (\<forall>j < length targets. r ! (n - length targets + j) = targets ! j) \<and>
           sorted_wrt (<) (take (n - length targets) r) \<and>
           set (take (n - length targets) r) = {..<n} - set targets)) \<and>
   PushToBack [2, 0] 4 = Inr [1, 3, 2, 0]"
proof (intro conjI impI)
  assume v: "distinct targets \<and> set targets \<subseteq> {..<n}"
  let ?rest = "filter (\<lambda>v. v \<notin> set targets) [0..<n]"
  let ?r = "?rest @ targets"
  have len: "length ?rest = n - length targets"
    using v by (simp add: rest_length)
  have tk: "take (n - length targets) ?r = ?rest"
    using len by simp
  have "length ?r = n"
    using v valid_length_le [of targets n] by (simp add: rest_length)
  moreover have "\<forall>j < length targets. ?r ! (n - length targets + j) = targets ! j"
    using len by (simp add: nth_append)
  moreover have "sorted_wrt (<) (take (n - length targets) ?r)"
    unfolding tk by (rule rest_sorted)
  moreover have "set (take (n - length targets) ?r) = {..<n} - set targets"
    unfolding tk by (rule rest_set)
  ultimately show "\<exists>r. PushToBack targets n = Inr r \<and> length r = n \<and>
           (\<forall>j < length targets. r ! (n - length targets + j) = targets ! j) \<and>
           sorted_wrt (<) (take (n - length targets) r) \<and>
           set (take (n - length targets) r) = {..<n} - set targets"
    using v by (simp add: PushToBack_closed)
next
  show "PushToBack [2, 0] 4 = Inr [1, 3, 2, 0]"
    by code_simp
qed

text \<open>The hypotheses of C3 hold for the targets \<open>[3, 1]\<close> among five variables.\<close>

theorem PushToBack_positions_witness:
  "distinct [3, 1 :: nat] \<and> set [3, 1 :: nat] \<subseteq> {..<5} \<and>
   (\<exists>r. PushToBack [3, 1] 5 = Inr r \<and> length r = 5 \<and>
        (\<forall>j < length [3, 1 :: nat]. r ! (5 - length [3, 1 :: nat] + j) = [3, 1] ! j) \<and>
        sorted_wrt (<) (take (5 - length [3, 1 :: nat]) r) \<and>
        set (take (5 - length [3, 1 :: nat]) r) = {..<5} - set [3, 1])"
proof -
  have h: "distinct [3, 1 :: nat] \<and> set [3, 1 :: nat] \<subseteq> {..<5}" by simp
  from PushToBack_positions [of "[3, 1]" 5] h show ?thesis by blast
qed

lemma inverse_round_trip:
  assumes "set p = {..<length p}"
  shows "\<exists>q. inverse_perm p = Inr q \<and> permute p q = Identity (length p) \<and> inverse_perm q = Inr p"
proof -
  from assms have d: "distinct p" and s: "set p \<subseteq> {..<length p}"
    by (simp_all add: bij_distinct)
  from inverse_spec [OF d s] obtain q where q: "inverse_perm p = Inr q" "length q = length p"
    "\<forall>i < length p. q ! (p ! i) = i" by blast
  from assms q have qs: "set q = {..<length q}" and pq: "\<forall>j < length p. p ! (q ! j) = j"
    by (simp_all add: inverse_bij [of p q])
  have "map ((!) p) q = [0..<length p]"
    using q(2) pq by (intro nth_equalityI) simp_all
  with qs q(2) have perm: "permute p q = Identity (length p)"
    by (simp add: permute_closed Identity_closed)
  from qs have dq: "distinct q" and sq: "set q \<subseteq> {..<length q}"
    by (simp_all add: bij_distinct)
  from inverse_spec [OF dq sq] obtain q' where q': "inverse_perm q = Inr q'" "length q' = length q"
    "\<forall>j < length q. q' ! (q ! j) = j" by blast
  have "q' = p"
  proof (rule nth_equalityI)
    show "length q' = length p" using q' q by simp
  next
    fix i assume "i < length q'"
    then have i: "i < length p" using q' q by simp
    then have "p ! i \<in> set p" by simp
    with assms q(2) have "p ! i < length q" by simp
    with q'(3) have "q' ! (q ! (p ! i)) = p ! i" by simp
    with q(3) i show "q' ! i = p ! i" by simp
  qed
  with q' q perm show ?thesis by simp
qed

text \<open>
  Claim C4. For every bijection \<open>p\<close> of size \<open>n\<close>, \<^verbatim>\<open>p.inverse()\<close> is returned,
  \<^verbatim>\<open>p.permute(p.inverse())\<close> equals \<^verbatim>\<open>Identity(n)\<close> and \<^verbatim>\<open>p.inverse().inverse()\<close> equals
  \<open>p\<close>; and \<^verbatim>\<open>Identity(n).permute(Identity(n))\<close> equals \<^verbatim>\<open>Identity(n)\<close> for every \<open>n\<close>.
\<close>

theorem compose_inverse_round_trips:
  "(length p = n \<and> set p = {..<n} \<longrightarrow>
      (\<exists>q. inverse_perm p = Inr q \<and> permute p q = Identity n \<and> inverse_perm q = Inr p)) \<and>
   (\<exists>e. Identity n = Inr e \<and> permute e e = Identity n)"
proof (intro conjI impI)
  assume "length p = n \<and> set p = {..<n}"
  then show "\<exists>q. inverse_perm p = Inr q \<and> permute p q = Identity n \<and> inverse_perm q = Inr p"
    using inverse_round_trip [of p] by auto
next
  have "map ((!) [0..<n]) [0..<n] = [0..<n]"
    by (intro nth_equalityI) simp_all
  then show "\<exists>e. Identity n = Inr e \<and> permute e e = Identity n"
    by (simp add: Identity_closed permute_closed atLeast0LessThan)
qed

text \<open>The hypothesis of C4 holds for the rotation \<open>[1, 2, 0]\<close>.\<close>

theorem compose_inverse_round_trips_witness:
  "length [1, 2, 0 :: nat] = 3 \<and> set [1, 2, 0 :: nat] = {..<3} \<and>
   (\<exists>q. inverse_perm [1, 2, 0] = Inr q \<and> permute [1, 2, 0] q = Identity 3 \<and> inverse_perm q = Inr [1, 2, 0])"
proof -
  have h: "length [1, 2, 0 :: nat] = 3 \<and> set [1, 2, 0 :: nat] = {..<3}" by auto
  from compose_inverse_round_trips [of "[1, 2, 0]" 3] h show ?thesis by blast
qed

text \<open>
  Claim C5 as stated asks only that \<^verbatim>\<open>selector\<close> and \<^verbatim>\<open>sub\<close> have equal length and entries
  below \<open>n\<close>. With the identity on three variables, the selector \<open>[0, 0, 1]\<close> and
  \<open>sub = [0, 2, 1]\<close>, position \<open>selector[0] = 0\<close> is written twice and ends up holding
  \<open>p[selector[sub[1]]] = 1\<close>, not \<open>p[selector[sub[0]]] = 0\<close>. With \<open>p = [0, 1]\<close>, the selector
  \<open>[0]\<close> and \<open>sub = [1]\<close>, the read \<^verbatim>\<open>selector[1]\<close> is out of range and the call aborts.
  With the identity on three variables, the selector \<open>[0, 1]\<close> and \<open>sub = [0, 0]\<close>, which
  repeats an index, the result \<open>[0, 0, 2]\<close> is not a permutation.
\<close>

theorem partialPermutation_counterexample:
  "length [0, 1, 2 :: nat] = 3 \<and> set [0, 1, 2 :: nat] = {..<3} \<and>
   length [0, 0, 1 :: nat] = length [0, 2, 1 :: nat] \<and>
   set [0, 0, 1 :: nat] \<subseteq> {..<3} \<and> set [0, 2, 1 :: nat] \<subseteq> {..<3} \<and>
   partialPermutation [0, 1, 2] [0, 0, 1] [0, 2, 1] = Inr [1, 0, 2] \<and>
   [1, 0, 2 :: nat] ! ([0, 0, 1] ! 0) \<noteq> [0, 1, 2 :: nat] ! ([0, 0, 1] ! ([0, 2, 1] ! 0)) \<and>
   length [0, 1 :: nat] = 2 \<and> set [0, 1 :: nat] = {..<2} \<and>
   length [0 :: nat] = length [1 :: nat] \<and>
   set [0 :: nat] \<subseteq> {..<2} \<and> set [1 :: nat] \<subseteq> {..<2} \<and>
   partialPermutation [0, 1] [0] [1] = Inl ContractViolation \<and>
   length [0, 1 :: nat] = length [0, 0 :: nat] \<and>
   set [0, 1 :: nat] \<subseteq> {..<3} \<and> set [0, 0 :: nat] \<subseteq> {..<3} \<and>
   partialPermutation [0, 1, 2] [0, 1] [0, 0] = Inr [0, 0, 2] \<and>
   set [0, 0, 2 :: nat] \<noteq> {..<3}"
proof -
  have "partialPermutation [0, 1, 2] [0, 0, 1] [0, 2, 1] = Inr [1, 0, 2]"
    by code_simp
  moreover have "partialPermutation [0, 1] [0] [1] = Inl ContractViolation"
    by code_simp
  moreover have "partialPermutation [0, 1, 2] [0, 1] [0, 0] = Inr [0, 0, 2]"
    by code_simp
  moreover have "set [0, 1, 2 :: nat] = {..<3}" by auto
  moreover have "set [0, 1 :: nat] = {..<2}" by auto
  moreover have "set [0, 0, 2 :: nat] \<noteq> {..<3}"
  proof
    assume "set [0, 0, 2 :: nat] = {..<3}"
    moreover have "(1 :: nat) \<in> {..<3}" by simp
    ultimately have "(1 :: nat) \<in> set [0, 0, 2]" by simp
    then show False by simp
  qed
  ultimately show ?thesis by simp
qed

text \<open>
  Claim C5, amended. For every valid bijection \<open>p\<close> of size \<open>n\<close>, every duplicate-free
  \<^verbatim>\<open>selector\<close> with entries below \<open>n\<close> and every \<^verbatim>\<open>sub\<close> of the same length that is a
  bijection of the selector's indices (its values are exactly \<open>0, \<dots>, length - 1\<close>),
  \<^verbatim>\<open>partialPermutation(selector, sub)\<close> returns a permutation \<open>r\<close>, a bijection of size \<open>n\<close>,
  with \<open>r[selector[j]] = p[selector[sub[j]]]\<close> for every \<open>j\<close>, and \<open>r[i] = p[i]\<close> for every
  position \<open>i\<close> that \<^verbatim>\<open>selector\<close> does not name.
\<close>

theorem partialPermutation_frame:
  "length p = n \<and> set p = {..<n} \<and> distinct selector \<and> set selector \<subseteq> {..<n} \<and>
   length sub = length selector \<and> set sub = {..<length selector} \<longrightarrow>
   (\<exists>r. partialPermutation p selector sub = Inr r \<and> length r = n \<and> set r = {..<n} \<and>
        (\<forall>j < length selector. r ! (selector ! j) = p ! (selector ! (sub ! j))) \<and>
        (\<forall>i < n. i \<notin> set selector \<longrightarrow> r ! i = p ! i))"
proof (rule impI)
  assume a: "length p = n \<and> set p = {..<n} \<and> distinct selector \<and> set selector \<subseteq> {..<n} \<and>
   length sub = length selector \<and> set sub = {..<length selector}"
  let ?m = "length selector"
  from a have sel: "set selector \<subseteq> {..<length p}" and sub: "set sub \<subseteq> {..<?m}" by simp_all
  from partialPermutation_spec [of sub selector p] a sel sub
  obtain r where r: "partialPermutation p selector sub = Inr r" "length r = length p"
    "\<forall>j < ?m. r ! (selector ! j) = p ! (selector ! (sub ! j))"
    "\<forall>i. i \<notin> set selector \<longrightarrow> r ! i = p ! i"
    by auto
  have sel_lt: "selector ! j < n" if "j < ?m" for j
  proof -
    from that have "selector ! j \<in> set selector" by simp
    with a show ?thesis by auto
  qed
  have sub_lt: "sub ! j < ?m" if "j < ?m" for j
  proof -
    from that a have "j < length sub" by simp
    then have "sub ! j \<in> set sub" by (rule nth_mem)
    also from a have "set sub = {..<?m}" by simp
    finally show ?thesis by simp
  qed
  have p_lt: "p ! i < n" if "i < n" for i
  proof -
    from that a have "i < length p" by simp
    then have "p ! i \<in> set p" by (rule nth_mem)
    also from a have "set p = {..<n}" by simp
    finally show ?thesis by simp
  qed
  have "set r = {..<n}"
  proof (intro equalityI subsetI)
    fix x assume "x \<in> set r"
    then obtain i where i: "i < length r" "x = r ! i" by (auto simp: in_set_conv_nth)
    show "x \<in> {..<n}"
    proof (cases "i \<in> set selector")
      case True
      then obtain j where j: "j < ?m" "selector ! j = i" by (auto simp: in_set_conv_nth)
      with r(3) have "r ! i = p ! (selector ! (sub ! j))" by auto
      moreover have "selector ! (sub ! j) < n" using j sub_lt sel_lt by simp
      ultimately show ?thesis using i p_lt by simp
    next
      case False
      with r(4) have "r ! i = p ! i" by simp
      with i r(2) a p_lt show ?thesis by simp
    qed
  next
    fix v assume "v \<in> {..<n}"
    also from a have "{..<n} = set p" by simp
    finally have "v \<in> set p" .
    then obtain c where c: "c < length p" "p ! c = v" by (auto simp: in_set_conv_nth)
    show "v \<in> set r"
    proof (cases "c \<in> set selector")
      case True
      then obtain m where m: "m < ?m" "selector ! m = c" by (auto simp: in_set_conv_nth)
      then have "m \<in> {..<?m}" by simp
      also from a have "{..<?m} = set sub" by simp
      finally have "m \<in> set sub" .
      then obtain j where j: "j < length sub" "sub ! j = m" by (auto simp: in_set_conv_nth)
      with a have j': "j < ?m" by simp
      with r(3) j m c have "r ! (selector ! j) = v" by simp
      moreover have "selector ! j < length r" using sel_lt [OF j'] r(2) a by simp
      ultimately show ?thesis by (metis nth_mem)
    next
      case False
      with r(4) c have "r ! c = v" by simp
      with c r(2) show ?thesis by (metis nth_mem)
    qed
  qed
  with r a show "\<exists>r. partialPermutation p selector sub = Inr r \<and> length r = n \<and> set r = {..<n} \<and>
        (\<forall>j < length selector. r ! (selector ! j) = p ! (selector ! (sub ! j))) \<and>
        (\<forall>i < n. i \<notin> set selector \<longrightarrow> r ! i = p ! i)"
    by auto
qed

text \<open>
  The hypotheses of the amended C5 hold for the rotation \<open>p = [1, 2, 3, 0]\<close>, the selector
  \<open>[3, 1]\<close> and the swap \<open>[1, 0]\<close>.
\<close>

theorem partialPermutation_frame_witness:
  "length [1, 2, 3, 0 :: nat] = 4 \<and> set [1, 2, 3, 0 :: nat] = {..<4} \<and>
   distinct [3, 1 :: nat] \<and> set [3, 1 :: nat] \<subseteq> {..<4} \<and>
   length [1, 0 :: nat] = length [3, 1 :: nat] \<and>
   set [1, 0 :: nat] = {..<length [3, 1 :: nat]} \<and>
   (\<exists>r. partialPermutation [1, 2, 3, 0] [3, 1] [1, 0] = Inr r \<and> length r = 4 \<and>
        set r = {..<4} \<and>
        (\<forall>j < length [3, 1 :: nat]. r ! ([3, 1] ! j) = [1, 2, 3, 0] ! ([3, 1] ! ([1, 0] ! j))) \<and>
        (\<forall>i < 4. i \<notin> set [3, 1 :: nat] \<longrightarrow> r ! i = [1, 2, 3, 0] ! i))"
proof -
  have h: "length [1, 2, 3, 0 :: nat] = 4 \<and> set [1, 2, 3, 0 :: nat] = {..<4} \<and>
   distinct [3, 1 :: nat] \<and> set [3, 1 :: nat] \<subseteq> {..<4} \<and>
   length [1, 0 :: nat] = length [3, 1 :: nat] \<and>
   set [1, 0 :: nat] = {..<length [3, 1 :: nat]}" by auto
  from partialPermutation_frame [of "[1, 2, 3, 0]" 4 "[3, 1]" "[1, 0]"] h show ?thesis by blast
qed

text \<open>
  Claim C6 as stated has every call with a duplicate id or an id \<open>\<ge> n\<close> abort at once with
  a contract violation. For the targets \<open>[0, 5]\<close> among four variables the unchecked store
  \<^verbatim>\<open>pulled[5] = true\<close> is undefined behaviour: no contract violation is raised. For the
  targets \<open>[1, 1]\<close> the marking loop runs to its end without noticing the duplicate; the
  abort comes later, from the index check of \<^verbatim>\<open>ret[4]\<close> in the filling loop. In a build
  without assertions the same call raises no contract violation either: the store
  \<^verbatim>\<open>ret[4] = 3\<close> is past the end of the vector.
\<close>

theorem PullToFront_counterexample:
  "PullToFront [0, 5] 4 = Inl UndefinedBehaviour \<and>
   PullToFront [0, 5] 4 \<noteq> Inl ContractViolation \<and>
   PullToFront_mark [1, 1] 0 (Permutation_new 4) (replicate 4 False) =
     Inr ([1, 1, 0, 0], [False, True, False, False]) \<and>
   fill_rest 4 0 2 [1, 1, 0, 0] [False, True, False, False] = Inl ContractViolation \<and>
   PullToFront_NDEBUG [1, 1] 4 = Inl UndefinedBehaviour \<and>
   PullToFront_NDEBUG [1, 1] 4 \<noteq> Inl ContractViolation"
proof -
  have a: "PullToFront [0, 5] 4 = Inl UndefinedBehaviour" by code_simp
  have b: "PullToFront_mark [1, 1] 0 (Permutation_new 4) (replicate 4 False) =
     Inr ([1, 1, 0, 0], [False, True, False, False])" by code_simp
  have c: "fill_rest 4 0 2 [1, 1, 0, 0] [False, True, False, False] = Inl ContractViolation"
    by code_simp
  have d: "PullToFront_NDEBUG [1, 1] 4 = Inl UndefinedBehaviour" by code_simp
  show ?thesis unfolding a b c d by simp
qed

text \<open>
  Claim C6, amended. In a build with assertions enabled, for every call
  \<^verbatim>\<open>PullToFront(targets, n)\<close> whose ids are all below \<open>n\<close> and whose \<^verbatim>\<open>targets\<close> contain a
  duplicate id, the operation fails by aborting with a contract violation rather than
  returning a permutation. The abort is not raised where the duplicate is read: when
  \<^verbatim>\<open>targets\<close> has at most \<open>n\<close> entries the marking loop runs to its end, and the index check
  of the permutation in the filling loop fails afterwards.
\<close>

theorem PullToFront_contract_violation:
  "set targets \<subseteq> {..<n} \<and> \<not> distinct targets \<longrightarrow>
     PullToFront targets n = Inl ContractViolation \<and>
     (length targets \<le> n \<longrightarrow>
        (\<exists>ret pulled.
           PullToFront_mark targets 0 (Permutation_new n) (replicate n False) = Inr (ret, pulled) \<and>
           fill_rest n 0 (length targets) ret pulled = Inl ContractViolation))"
proof (intro impI conjI)
  assume a: "set targets \<subseteq> {..<n} \<and> \<not> distinct targets"
  then show "PullToFront targets n = Inl ContractViolation"
    by (simp add: PullToFront_closed)
next
  assume a: "set targets \<subseteq> {..<n} \<and> \<not> distinct targets" and k: "length targets \<le> n"
  let ?k = "length targets"
  let ?rest = "filter (\<lambda>v. v \<notin> set targets) [0..<n]"
  let ?ret = "targets @ replicate (n - ?k) 0"
  let ?pulled = "marks targets (replicate n False)"
  have mark: "PullToFront_mark targets 0 (Permutation_new n) (replicate n False) =
      Inr (?ret, ?pulled)"
    using k a by (simp add: Permutation_new_def PullToFront_mark_closed)
  have m: "card (set targets \<inter> {..<n}) \<le> ?k" by (rule card_Int_le_length)
  from a have "card (set targets \<inter> {..<n}) \<noteq> ?k" by (simp add: card_Int_eq_length)
  with m k have "\<not> ?k + length ?rest \<le> n" by (simp add: length_filter_notin)
  then have "fill_rest n 0 ?k ?ret ?pulled = Inl ContractViolation"
    using k by (simp add: fill_rest_closed marks_replicate_filter Let_def)
  with mark show "\<exists>ret pulled.
           PullToFront_mark targets 0 (Permutation_new n) (replicate n False) = Inr (ret, pulled) \<and>
           fill_rest n 0 (length targets) ret pulled = Inl ContractViolation"
    by blast
qed

text \<open>The hypotheses of the amended C6 hold for the duplicate in \<open>[1, 1]\<close> among four variables.\<close>

theorem PullToFront_contract_violation_witness:
  "set [1, 1 :: nat] \<subseteq> {..<4} \<and> \<not> distinct [1, 1 :: nat] \<and> length [1, 1 :: nat] \<le> 4 \<and>
   PullToFront [1, 1] 4 = Inl ContractViolation \<and>
   (\<exists>ret pulled.
      PullToFront_mark [1, 1] 0 (Permutation_new 4) (replicate 4 False) = Inr (ret, pulled) \<and>
      fill_rest 4 0 (length [1, 1 :: nat]) ret pulled = Inl ContractViolation)"
proof -
  have h: "set [1, 1 :: nat] \<subseteq> {..<4} \<and> \<not> distinct [1, 1 :: nat]" by simp
  have k: "length [1, 1 :: nat] \<le> 4" by simp
  from PullToFront_contract_violation [of "[1, 1]" 4] h k show ?thesis by blast
qed

section \<open>Properties of VariableSlots\<close>

lemma split_at_field: "c \<notin> set f \<Longrightarrow> split_at c (f @ c # rest) = f # split_at c rest"
  by (induction f) auto

lemma digit_chars: "d < 10 \<Longrightarrow> ''0123456789'' ! d \<in> set ''0123456789''"
  by (rule nth_mem) simp

lemma string_of_nat_digits: "set (string_of_nat n) \<subseteq> set ''0123456789''"
proof (induction n rule: string_of_nat.induct)
  case (1 n)
  show ?case
  proof (cases "n < 10")
    case True
    then have "''0123456789'' ! n \<in> set ''0123456789''" by (rule digit_chars)
    with True show ?thesis by (subst string_of_nat.simps) simp
  next
    case False
    have "''0123456789'' ! (n mod 10) \<in> set ''0123456789''" by (rule digit_chars) simp
    with False 1 show ?thesis by (subst string_of_nat.simps) simp
  qed
qed

lemma cell_no_sep: "tab \<notin> set (cell v)" "newline \<notin> set (cell v)"
  using string_of_nat_digits [of v] by (auto simp: cell_def tab_def newline_def)

lemma key_no_sep: "tab \<notin> set (string_of_nat v)" "newline \<notin> set (string_of_nat v)"
  using string_of_nat_digits [of v] by (auto simp: tab_def newline_def)

lemma print_keys_closed:
  "print_keys this out = out @ concat (map (\<lambda>slot. string_of_nat (fst slot) @ [tab]) this)"
  by (induction this arbitrary: out) auto

lemma print_row_closed:
  "\<forall>slot \<in> set this. i < length (snd slot) \<Longrightarrow>
   print_row this i out = Some (out @ concat (map (\<lambda>slot. cell (snd slot ! i) @ [tab]) this))"
  by (induction this arbitrary: out) (auto simp: cell_def)

lemma print_rows_closed:
  "\<forall>slot \<in> set this. n \<le> length (snd slot) \<Longrightarrow> i \<le> n \<Longrightarrow>
   print_rows this n i out =
     Some (out @ concat (map (\<lambda>i. ''    '' @ [tab] @
             concat (map (\<lambda>slot. cell (snd slot ! i) @ [tab]) this) @ [newline]) [i..<n]))"
proof (induction this n i out rule: print_rows.induct)
  case (1 this n i out)
  show ?case
  proof (cases "i < n")
    case False
    with 1 show ?thesis by (subst print_rows.simps) simp
  next
    case True
    with 1 have "\<forall>slot \<in> set this. i < length (snd slot)" by fastforce
    then have row: "print_row this i (out @ ''    '' @ [tab]) =
        Some ((out @ ''    '' @ [tab]) @ concat (map (\<lambda>slot. cell (snd slot ! i) @ [tab]) this))"
      by (rule print_row_closed)
    let ?out' = "(out @ ''    '' @ [tab]) @ concat (map (\<lambda>slot. cell (snd slot ! i) @ [tab]) this)"
    from True have step: "print_rows this n i out = print_rows this n (Suc i) (?out' @ [newline])"
      by (subst print_rows.simps) (simp only: row if_True option.case)
    from 1 True have "print_rows this n (Suc i) (?out' @ [newline]) =
        Some ((?out' @ [newline]) @ concat (map (\<lambda>i. ''    '' @ [tab] @
             concat (map (\<lambda>slot. cell (snd slot ! i) @ [tab]) this) @ [newline]) [Suc i..<n]))"
      by (intro "1.IH" [OF True row]) simp_all
    with step True show ?thesis
      by (simp add: upt_conv_Cons)
  qed
qed


lemma split_at_cells:
  "\<forall>x \<in> set xs. c \<notin> set (f x) \<Longrightarrow> split_at c (concat (map (\<lambda>x. f x @ [c]) xs)) = map f xs"
  by (induction xs) (simp_all add: split_at_field)

lemma tab_neq_newline: "tab \<noteq> newline"
  by (simp add: tab_def newline_def)

lemma cells_of_row:
  "split_at tab (''    '' @ [tab] @ concat (map (\<lambda>slot. cell (snd slot ! i) @ [tab]) this)) =
     ''    '' # map (\<lambda>slot. cell (snd slot ! i)) this"
proof -
  have "tab \<notin> set ''    ''" by (simp add: tab_def)
  then have "split_at tab (''    '' @ tab # concat (map (\<lambda>slot. cell (snd slot ! i) @ [tab]) this)) =
      ''    '' # split_at tab (concat (map (\<lambda>slot. cell (snd slot ! i) @ [tab]) this))"
    by (rule split_at_field)
  also have "split_at tab (concat (map (\<lambda>slot. cell (snd slot ! i) @ [tab]) this)) =
      map (\<lambda>slot. cell (snd slot ! i)) this"
    by (rule split_at_cells) (simp add: cell_no_sep)
  finally show ?thesis by simp
qed

lemma cells_of_header:
  "split_at tab (''Var:'' @ [tab] @ concat (map (\<lambda>slot. string_of_nat (fst slot) @ [tab]) this)) =
     ''Var:'' # map (\<lambda>slot. string_of_nat (fst slot)) this"
proof -
  have "tab \<notin> set ''Var:''" by (simp add: tab_def)
  then have "split_at tab (''Var:'' @ tab # concat (map (\<lambda>slot. string_of_nat (fst slot) @ [tab]) this)) =
      ''Var:'' # split_at tab (concat (map (\<lambda>slot. string_of_nat (fst slot) @ [tab]) this))"
    by (rule split_at_field)
  also have "split_at tab (concat (map (\<lambda>slot. string_of_nat (fst slot) @ [tab]) this)) =
      map (\<lambda>slot. string_of_nat (fst slot)) this"
    by (rule split_at_cells) (simp add: key_no_sep)
  finally show ?thesis by simp
qed

lemma newline_notin_row:
  "newline \<notin> set (''    '' @ [tab] @ concat (map (\<lambda>slot. cell (snd slot ! i) @ [tab]) this))"
proof -
  have "newline \<notin> set ''    ''" by (simp add: newline_def)
  then show ?thesis using tab_neq_newline by (auto simp: cell_no_sep)
qed

lemma newline_notin_header:
  "newline \<notin> set (''Var:'' @ [tab] @ concat (map (\<lambda>slot. string_of_nat (fst slot) @ [tab]) this))"
proof -
  have "newline \<notin> set ''Var:''" by (simp add: newline_def)
  then show ?thesis using tab_neq_newline by (auto simp: key_no_sep)
qed

lemma lines_of_grid:
  "newline \<notin> set h \<Longrightarrow> \<forall>i \<in> set is. newline \<notin> set (r i) \<Longrightarrow>
   split_at newline (h @ [newline] @ concat (map (\<lambda>i. r i @ [newline]) is)) = h # map r is"
  by (simp add: split_at_field split_at_cells)

lemma print_closed:
  assumes "this \<noteq> []" and "\<forall>slot \<in> set this. length (snd slot) = length (snd (hd this))"
  shows "print this str = Some (str @ [newline] @
      (''Var:'' @ [tab] @ concat (map (\<lambda>slot. string_of_nat (fst slot) @ [tab]) this)) @ [newline] @
      concat (map (\<lambda>i. (''    '' @ [tab] @
             concat (map (\<lambda>slot. cell (snd slot ! i) @ [tab]) this)) @ [newline])
        [0..<length (snd (hd this))]))"
proof -
  let ?n = "length (snd (hd this))"
  let ?out = "print_keys this (str @ [newline] @ ''Var:'' @ [tab]) @ [newline]"
  from assms(1) have "print this str = print_rows this ?n 0 ?out"
    by (simp only: print_def if_False)
  also have "\<dots> = Some (?out @ concat (map (\<lambda>i. ''    '' @ [tab] @
             concat (map (\<lambda>slot. cell (snd slot ! i) @ [tab]) this) @ [newline]) [0..<?n]))"
    by (rule print_rows_closed) (use assms(2) in simp_all)
  finally show ?thesis
    by (simp only: print_keys_closed append_assoc)
qed

text \<open>
  Claim C7, amended. For every non-empty table whose vectors all have the length of the
  first (the number of factors), \<^verbatim>\<open>print\<close> writes the label and then a grid: a header
  line \<open>Var:\<close> with one column per variable (its id), and one row per factor, each with a
  blank leading cell and one entry per variable; an entry holding the sentinel (the
  maximum index) is rendered as \<open>x\<close>, any other as its decimal number. An empty table
  prints \<open>empty\<close>.
\<close>

theorem print_table:
  "(this \<noteq> [] \<and> (\<forall>slot \<in> set this. length (snd slot) = length (snd (hd this))) \<longrightarrow>
      (\<exists>grid. print this str = Some (str @ [newline] @ grid) \<and>
         map (split_at tab) (split_at newline grid) =
           (''Var:'' # map (\<lambda>slot. string_of_nat (fst slot)) this) #
           map (\<lambda>i. ''    '' #
                  map (\<lambda>slot. if snd slot ! i = Index_max then ''x''
                               else string_of_nat (snd slot ! i)) this)
             [0..<length (snd (hd this))])) \<and>
   print [] str = Some (''empty'' @ [newline])"
proof (intro conjI impI)
  assume a: "this \<noteq> [] \<and> (\<forall>slot \<in> set this. length (snd slot) = length (snd (hd this)))"
  let ?h = "''Var:'' @ [tab] @ concat (map (\<lambda>slot. string_of_nat (fst slot) @ [tab]) this)"
  let ?r = "\<lambda>i. ''    '' @ [tab] @ concat (map (\<lambda>slot. cell (snd slot ! i) @ [tab]) this)"
  let ?is = "[0..<length (snd (hd this))]"
  let ?grid = "?h @ [newline] @ concat (map (\<lambda>i. ?r i @ [newline]) ?is)"
  from a have p: "print this str = Some (str @ [newline] @ ?grid)"
    using print_closed [of this str] by blast
  have "split_at newline ?grid = ?h # map ?r ?is"
  proof (rule lines_of_grid)
    show "newline \<notin> set ?h" by (rule newline_notin_header)
    show "\<forall>i \<in> set ?is. newline \<notin> set (?r i)" using newline_notin_row by blast
  qed
  then have "map (split_at tab) (split_at newline ?grid) =
      split_at tab ?h # map (\<lambda>i. split_at tab (?r i)) ?is"
    by simp
  also have "\<dots> = (''Var:'' # map (\<lambda>slot. string_of_nat (fst slot)) this) #
      map (\<lambda>i. ''    '' # map (\<lambda>slot. cell (snd slot ! i)) this) ?is"
    by (simp only: cells_of_header cells_of_row)
  finally have "map (split_at tab) (split_at newline ?grid) =
      (''Var:'' # map (\<lambda>slot. string_of_nat (fst slot)) this) #
      map (\<lambda>i. ''    '' # map (\<lambda>slot. if snd slot ! i = Index_max then ''x''
                               else string_of_nat (snd slot ! i)) this) ?is"
    by (simp only: cell_def)
  with p show "\<exists>grid. print this str = Some (str @ [newline] @ grid) \<and>
         map (split_at tab) (split_at newline grid) =
           (''Var:'' # map (\<lambda>slot. string_of_nat (fst slot)) this) #
           map (\<lambda>i. ''    '' #
                  map (\<lambda>slot. if snd slot ! i = Index_max then ''x''
                               else string_of_nat (snd slot ! i)) this)
             [0..<length (snd (hd this))]"
    by (intro exI [where x = ?grid] conjI)
next
  show "print [] str = Some (''empty'' @ [newline])"
    by (simp add: print_def)
qed



lemma string_of_nat_digit: "n < 10 \<Longrightarrow> string_of_nat n = [''0123456789'' ! n]"
  by (subst string_of_nat.simps) simp

lemma print_example:
  "print [(7, [0, Index_max])] ''slots'' =
     Some (''slots'' @ [newline] @ ''Var:'' @ [tab] @ ''7'' @ [tab, newline] @
           ''    '' @ [tab] @ ''0'' @ [tab, newline] @ ''    '' @ [tab] @ ''x'' @ [tab, newline])"
proof -
  have keys: "print_keys [(7, [0, Index_max])] out = out @ ''7'' @ [tab]" for out
    by (simp add: string_of_nat_digit)
  have ne: "(0 :: nat) \<noteq> Index_max" by (simp add: Index_max_def)
  have r0: "print_row [(7, [0, Index_max])] 0 out = Some (out @ ''0'' @ [tab])" for out
    using ne by (simp add: string_of_nat_digit)
  have r1: "print_row [(7, [0, Index_max])] (Suc 0) out = Some (out @ ''x'' @ [tab])" for out
    by simp
  have rows: "print_rows [(7, [0, Index_max])] (Suc (Suc 0)) 0 out =
      Some (out @ ''    '' @ [tab] @ ''0'' @ [tab, newline] @ ''    '' @ [tab] @ ''x'' @ [tab, newline])" for out
    apply (subst print_rows.simps)
    apply (simp only: r0 option.case zero_less_Suc if_True)
    apply (subst print_rows.simps)
    apply (simp only: r1 option.case Suc_less_eq zero_less_Suc if_True)
    apply (subst print_rows.simps)
    apply simp
    done
  have "print [(7, [0, Index_max])] ''slots'' =
      print_rows [(7, [0, Index_max])] (length (snd (hd [(7 :: Index, [0, Index_max])]))) 0
        (print_keys [(7, [0, Index_max])] (''slots'' @ [newline] @ ''Var:'' @ [tab]) @ [newline])"
    unfolding print_def by (simp only: list.distinct if_False)
  also have "length (snd (hd [(7 :: Index, [0, Index_max])])) = Suc (Suc 0)"
    by simp
  finally show ?thesis
    by (simp add: keys rows del: print_keys.simps print_row.simps)
qed

text \<open>
  Claim C7 as stated has one column per factor and one row per variable. The table of
  the single variable \<open>7\<close> over two factors is printed with two rows (one per factor) of
  one entry each (one per variable): the number of rows is not the number of variables,
  and the number of entries of a row is not the number of factors.
\<close>

theorem print_counterexample:
  "print [(7, [0, Index_max])] ''slots'' =
     Some (''slots'' @ [newline] @ ''Var:'' @ [tab] @ ''7'' @ [tab, newline] @
           ''    '' @ [tab] @ ''0'' @ [tab, newline] @ ''    '' @ [tab] @ ''x'' @ [tab, newline]) \<and>
   map (split_at tab) (split_at newline
       (''Var:'' @ [tab] @ ''7'' @ [tab, newline] @
        ''    '' @ [tab] @ ''0'' @ [tab, newline] @ ''    '' @ [tab] @ ''x'' @ [tab, newline])) =
     [[''Var:'', ''7''], [''    '', ''0''], [''    '', ''x'']] \<and>
   length [[''    '', ''0''], [''    '', ''x'']] \<noteq> length [(7 :: Index, [0, Index_max])] \<and>
   length [''0''] \<noteq> length (snd (hd [(7 :: Index, [0, Index_max])]))"
proof -
  have "map (split_at tab) (split_at newline
       (''Var:'' @ [tab] @ ''7'' @ [tab, newline] @
        ''    '' @ [tab] @ ''0'' @ [tab, newline] @ ''    '' @ [tab] @ ''x'' @ [tab, newline])) =
     [[''Var:'', ''7''], [''    '', ''0''], [''    '', ''x'']]"
    by (simp add: tab_def newline_def)
  then show ?thesis using print_example by simp
qed

text \<open>The hypotheses of the amended C7 hold for a table of two variables over two factors.\<close>

theorem print_table_witness:
  "[(7, [0, Index_max]), (12, [Index_max, 305])] \<noteq> [] \<and>
   length (snd (7 :: Index, [0, Index_max])) = length (snd (hd [(7 :: Index, [0, Index_max]), (12, [Index_max, 305])])) \<and>
   length (snd (12 :: Index, [Index_max, 305])) = length (snd (hd [(7 :: Index, [0, Index_max]), (12, [Index_max, 305])])) \<and>
   (\<exists>grid. print [(7, [0, Index_max]), (12, [Index_max, 305])] ''slots'' = Some (''slots'' @ [newline] @ grid) \<and>
      map (split_at tab) (split_at newline grid) =
        [[''Var:'', ''7'', ''12''], [''    '', ''0'', ''x''], [''    '', ''x'', ''305'']])"
proof -
  let ?t = "[(7 :: Index, [0, Index_max]), (12, [Index_max, 305])]"
  have h: "?t \<noteq> [] \<and> (\<forall>slot \<in> set ?t. length (snd slot) = length (snd (hd ?t)))" by simp
  have ne: "(0 :: nat) \<noteq> Index_max" "(305 :: nat) \<noteq> Index_max" by (simp_all add: Index_max_def)
  have s: "string_of_nat 7 = ''7''" "string_of_nat 0 = ''0''" "string_of_nat 12 = ''12''"
    "string_of_nat 305 = ''305''"
    by (simp_all add: string_of_nat.simps [of 12] string_of_nat.simps [of 305]
          string_of_nat.simps [of 30] string_of_nat_digit)
  have u: "[0..<length (snd (hd ?t))] = [0, Suc 0]" by (simp add: upt_conv_Cons)
  from print_table [of ?t "''slots''", THEN conjunct1, THEN mp, OF h]
  obtain grid where g0: "print ?t ''slots'' = Some (''slots'' @ [newline] @ grid) \<and>
    map (split_at tab) (split_at newline grid) =
           (''Var:'' # map (\<lambda>slot. string_of_nat (fst slot)) ?t) #
           map (\<lambda>i. ''    '' #
                  map (\<lambda>slot. if snd slot ! i = Index_max then ''x''
                               else string_of_nat (snd slot ! i)) ?t)
             [0..<length (snd (hd ?t))]" ..
  note g = g0 [THEN conjunct1] g0 [THEN conjunct2]
  from g(2) have "map (split_at tab) (split_at newline grid) =
        [[''Var:'', ''7'', ''12''], [''    '', ''0'', ''x''], [''    '', ''x'', ''305'']]"
    unfolding u using ne by (simp add: s)
  with g(1) show ?thesis by simp
qed

text \<open>
  Claim C9. For all tables \<open>a\<close>, \<open>b\<close> and all tolerances \<open>t1\<close>, \<open>t2\<close>,
  \<^verbatim>\<open>a.equals(b, t1)\<close> = \<^verbatim>\<open>a.equals(b, t2)\<close> = \<^verbatim>\<open>(a == b)\<close>, and \<^verbatim>\<open>a == b\<close> holds exactly when
  \<open>a\<close> and \<open>b\<close> are the same table: the tolerance has no effect and equality is exact
  structural equality.
\<close>

theorem equals_exact:
  "equals a b t1 = equals a b t2 \<and> equals a b t1 = map_eq a b \<and> (map_eq a b \<longleftrightarrow> a = b)"
proof -
  have v: "vector_eq xs ys \<longleftrightarrow> xs = ys" for xs ys
    by (auto simp: vector_eq_def list.rel_eq)
  have "(\<lambda>x y :: Index \<times> Index list. fst x = fst y \<and> vector_eq (snd x) (snd y)) = (=)"
    by (auto simp: v fun_eq_iff)
  then have "map_eq a b \<longleftrightarrow> a = b"
    by (auto simp: map_eq_def list.rel_eq)
  then show ?thesis by (simp add: equals_def)
qed

section \<open>Properties of ImuFactorBase::predict\<close>

text \<open>
  Claim C10. Whatever the pose, velocity, bias, preintegrated measurement, gravity,
  Coriolis rate and second-order flag, the \<^verbatim>\<open>PoseVelocityBias\<close> that \<^verbatim>\<open>predict\<close> returns has
  its \<^verbatim>\<open>bias\<close> field equal to the input \<^verbatim>\<open>bias_i\<close>.
\<close>

theorem predict_bias_unchanged:
  "bias (predict G pose_i vel_i bias_i PIM gravity omegaCoriolis use2ndOrderCoriolis) = bias_i"
  by (simp add: predict_def Let_def)

end
